theory Spec2Isabelle
  imports Complex_Main "HOL-Library.Multiset" "HOL-Library.Signed_Division"
begin

section \<open>Durations and times of the underlying time library\<close>

text \<open>
  \<^verbatim>\<open>unsmear::Duration\<close> wraps an \<^verbatim>\<open>absl::Duration\<close> (\<^verbatim>\<open>rep_\<close>) and forwards every
  operator to it; \<^verbatim>\<open>absl::Time\<close>, \<^verbatim>\<open>TaiTime\<close> and \<^verbatim>\<open>GpsTime\<close> are each one
  duration counted from an epoch.  The library type itself is not part of the repository
  sources.

  Modelled from the spec: \<^verbatim>\<open>absl::Duration\<close>, its arithmetic and its factories.  The spec asks for
  a signed fixed-point quantity (whole seconds in 64 bits plus quarter-nanosecond ticks) that
  carries the two sentinels +INFINITE and -INFINITE and saturates on overflow.  A finite duration is
  its count of quarter-nanosecond ticks \<open>n\<close>, with \<open>-2^63 * 4*10^9 \<le> n < 2^63 * 4*10^9\<close>: the
  library's pair \<open>(rep_hi, rep_lo)\<close> is \<open>(n div 4*10^9, n mod 4*10^9)\<close>.
\<close>

datatype Duration = Finite int | PlusInf | MinusInf

type_synonym Time = Duration
type_synonym TaiTime = Duration
type_synonym GpsTime = Duration

definition kTicksPerSecond :: int where
  "kTicksPerSecond = 4000000000"

definition kint64max :: int where
  "kint64max = 9223372036854775807"

definition kint64min :: int where
  "kint64min = - 9223372036854775808"

definition representable :: "int \<Rightarrow> bool" where
  "representable n \<longleftrightarrow> kint64min * kTicksPerSecond \<le> n \<and> n < (kint64max + 1) * kTicksPerSecond"

definition IsInfiniteDuration :: "Duration \<Rightarrow> bool" where
  "IsInfiniteDuration d = (case d of Finite n \<Rightarrow> False | _ \<Rightarrow> True)"

definition InfiniteDuration :: Duration where
  "InfiniteDuration = PlusInf"

definition ZeroDuration :: Duration where
  "ZeroDuration = Finite 0"

text \<open>\<^verbatim>\<open>operator<\<close>: minus infinity is below, plus infinity above every finite duration.\<close>

fun dless :: "Duration \<Rightarrow> Duration \<Rightarrow> bool" where
  "dless (Finite a) (Finite b) = (a < b)"
| "dless (Finite a) PlusInf = True"
| "dless MinusInf (Finite b) = True"
| "dless MinusInf PlusInf = True"
| "dless _ _ = False"

definition dle :: "Duration \<Rightarrow> Duration \<Rightarrow> bool" where
  "dle a b = (\<not> dless b a)"

text \<open>Unary minus: the most negative finite duration has no finite negation.\<close>

fun dneg :: "Duration \<Rightarrow> Duration" where
  "dneg (Finite n) = (if n = kint64min * kTicksPerSecond then PlusInf else Finite (- n))"
| "dneg PlusInf = MinusInf"
| "dneg MinusInf = PlusInf"

text \<open>
  \<^verbatim>\<open>operator+=\<close>: an infinite left operand stays as it is, then an infinite right operand wins,
  then the sum; on overflow the result is the infinity of the sign of the right operand.
\<close>

fun dplus :: "Duration \<Rightarrow> Duration \<Rightarrow> Duration" where
  "dplus PlusInf d = PlusInf"
| "dplus MinusInf d = MinusInf"
| "dplus (Finite a) PlusInf = PlusInf"
| "dplus (Finite a) MinusInf = MinusInf"
| "dplus (Finite a) (Finite b) =
     (if representable (a + b) then Finite (a + b) else if b < 0 then MinusInf else PlusInf)"

text \<open>\<^verbatim>\<open>operator-=\<close>, with the mirrored rules.\<close>

fun dminus :: "Duration \<Rightarrow> Duration \<Rightarrow> Duration" where
  "dminus PlusInf d = PlusInf"
| "dminus MinusInf d = MinusInf"
| "dminus (Finite a) PlusInf = MinusInf"
| "dminus (Finite a) MinusInf = PlusInf"
| "dminus (Finite a) (Finite b) =
     (if representable (a - b) then Finite (a - b) else if b < 0 then PlusInf else MinusInf)"

text \<open>\<^verbatim>\<open>operator*=(int64_t)\<close>.\<close>

fun dmul_int :: "Duration \<Rightarrow> int \<Rightarrow> Duration" where
  "dmul_int PlusInf r = (if r < 0 then MinusInf else PlusInf)"
| "dmul_int MinusInf r = (if r < 0 then PlusInf else MinusInf)"
| "dmul_int (Finite a) r =
     (if representable (a * r) then Finite (a * r) else if a * r < 0 then MinusInf else PlusInf)"

text \<open>The factories take an \<^verbatim>\<open>int64_t\<close>; the coarser units saturate.\<close>

definition Seconds :: "int \<Rightarrow> Duration" where
  "Seconds n = Finite (n * kTicksPerSecond)"

definition Milliseconds :: "int \<Rightarrow> Duration" where
  "Milliseconds n = Finite (n * 4000000)"

definition Nanoseconds :: "int \<Rightarrow> Duration" where
  "Nanoseconds n = Finite (n * 4)"

definition Hours :: "int \<Rightarrow> Duration" where
  "Hours n =
     (if n \<le> kint64max div 3600 \<and> - (kint64max div 3600) \<le> n
      then Finite (n * 3600 * kTicksPerSecond)
      else if 0 < n then PlusInf else MinusInf)"

section \<open>Double-precision arithmetic used by the interpolation\<close>

text \<open>
  The two \<^verbatim>\<open>Interpolate\<close> functions compute the fraction of the smear in \<^verbatim>\<open>double\<close>
  (\<^verbatim>\<open>FDivDuration\<close>) and scale one second by it (\<^verbatim>\<open>Duration::operator*=(double)\<close>).

  Modelled from the spec: the IEEE 754 binary64 operations of the platform and the two library
  functions built on them.  A finite double is a dyadic number \<open>m * 2^e\<close>; every operation
  computes the exact result and rounds it to 53 significant bits, ties to even.  Exponent overflow
  and underflow are left out: the magnitudes met here lie between \<open>2^-100\<close> and \<open>2^100\<close>.
\<close>

datatype double = Dbl int int | DPlusInf | DMinusInf

text \<open>The number of significant bits of a positive integer.\<close>

function bits :: "int \<Rightarrow> nat" where
  "bits n = (if n \<le> 0 then 0 else Suc (bits (n div 2)))"
  by pat_completeness auto
termination
  by (relation "measure nat") auto

declare bits.simps [simp del]

definition round53 :: "int \<Rightarrow> int \<Rightarrow> double" where
  "round53 m e =
     (let a = \<bar>m\<bar>; n = bits a in
      if n \<le> 53 then Dbl m e
      else let k = n - 53; q = a div 2 ^ k; r = a mod 2 ^ k; h = 2 ^ (k - 1);
               q' = (if h < r \<or> (r = h \<and> odd q) then q + 1 else q)
           in Dbl (sgn m * q') (e + int k))"

definition d_of_int :: "int \<Rightarrow> double" where
  "d_of_int i = round53 i 0"

fun d_mul :: "double \<Rightarrow> double \<Rightarrow> double" where
  "d_mul (Dbl m1 e1) (Dbl m2 e2) = round53 (m1 * m2) (e1 + e2)"
| "d_mul x y = x"

fun d_add :: "double \<Rightarrow> double \<Rightarrow> double" where
  "d_add (Dbl m1 e1) (Dbl m2 e2) =
     (let e = min e1 e2 in round53 (m1 * 2 ^ nat (e1 - e) + m2 * 2 ^ nat (e2 - e)) e)"
| "d_add x y = x"

text \<open>Division by a non-zero finite double: a quotient of at least 56 bits and a sticky bit.\<close>

fun d_div :: "double \<Rightarrow> double \<Rightarrow> double" where
  "d_div (Dbl m1 e1) (Dbl m2 e2) =
     (if m1 = 0 then Dbl 0 0
      else let a = \<bar>m1\<bar>; b = \<bar>m2\<bar>;
               k = nat (max 0 (int (bits b) + 56 - int (bits a)));
               q = (a * 2 ^ k) div b; r = (a * 2 ^ k) mod b;
               q2 = 2 * q + (if r = 0 then 0 else 1)
           in round53 (sgn m1 * sgn m2 * q2) (e1 - e2 - int k - 1))"
| "d_div x y = x"

text \<open>\<^verbatim>\<open>std::modf\<close>: the integral part (towards zero) and the fraction, both exact.\<close>

fun d_trunc :: "double \<Rightarrow> int" where
  "d_trunc (Dbl m e) = (if 0 \<le> e then m * 2 ^ nat e else sgn m * (\<bar>m\<bar> div 2 ^ nat (- e)))"
| "d_trunc x = 0"

fun d_frac :: "double \<Rightarrow> double" where
  "d_frac (Dbl m e) = (if 0 \<le> e then Dbl 0 0 else Dbl (sgn m * (\<bar>m\<bar> mod 2 ^ nat (- e))) e)"
| "d_frac x = x"

text \<open>\<^verbatim>\<open>std::round\<close>: to the nearest integer, halves away from zero.\<close>

fun d_round :: "double \<Rightarrow> int" where
  "d_round (Dbl m e) =
     (if 0 \<le> e then m * 2 ^ nat e
      else let p = 2 ^ nat (- e); q = \<bar>m\<bar> div p; r = \<bar>m\<bar> mod p
           in sgn m * (if p \<le> 2 * r then q + 1 else q))"
| "d_round x = 0"

text \<open>
  \<^verbatim>\<open>FDivDuration\<close> of the library: infinities are sticky, otherwise both operands are turned
  into a tick count in double, \<^verbatim>\<open>double(rep_hi) * kTicksPerSecond + rep_lo\<close>, and divided.
\<close>

definition ticks_to_double :: "int \<Rightarrow> double" where
  "ticks_to_double n =
     d_add (d_mul (d_of_int (n div kTicksPerSecond)) (d_of_int kTicksPerSecond))
           (d_of_int (n mod kTicksPerSecond))"

fun FDivDuration :: "Duration \<Rightarrow> Duration \<Rightarrow> double" where
  "FDivDuration (Finite a) (Finite b) =
     (if b = 0 then (if (a < 0) = (b < 0) then DPlusInf else DMinusInf)
      else d_div (ticks_to_double a) (ticks_to_double b))"
| "FDivDuration (Finite a) den = Dbl 0 0"
| "FDivDuration num den =
     (if dless num ZeroDuration = dless den ZeroDuration then DPlusInf else DMinusInf)"

text \<open>
  \<^verbatim>\<open>Duration::operator*=(double)\<close> (the library's \<^verbatim>\<open>ScaleDouble\<close>): seconds and ticks are
  scaled apart, the fraction of the seconds is carried into the ticks, and the ticks are rounded
  with \<^verbatim>\<open>std::round\<close>.  A sum of whole seconds at or beyond the 64-bit range gives an infinity.
\<close>

definition SafeAddRepHi :: "double \<Rightarrow> double \<Rightarrow> Duration" where
  "SafeAddRepHi a_hi a_lo =
     (let c = d_trunc (d_add a_hi a_lo) in
      if kint64max + 1 \<le> c then PlusInf
      else if c \<le> kint64min then MinusInf
      else Finite (c * kTicksPerSecond))"

definition ScaleDouble :: "int \<Rightarrow> double \<Rightarrow> Duration" where
  "ScaleDouble n r =
     (let hi_doub = d_mul (d_of_int (n div kTicksPerSecond)) r;
          lo_doub = d_mul (d_of_int (n mod kTicksPerSecond)) r;
          hi_int = d_trunc hi_doub; hi_frac = d_frac hi_doub;
          lo_doub2 = d_add (d_div lo_doub (d_of_int kTicksPerSecond)) hi_frac;
          lo_int = d_trunc lo_doub2; lo_frac = d_frac lo_doub2;
          lo64 = d_round (d_mul lo_frac (d_of_int kTicksPerSecond))
      in case SafeAddRepHi (d_of_int hi_int) (d_of_int lo_int) of
           Finite h1 \<Rightarrow>
             (case SafeAddRepHi (d_of_int (h1 div kTicksPerSecond))
                                (d_of_int (lo64 sdiv kTicksPerSecond)) of
                Finite h2 \<Rightarrow> Finite (h2 + lo64 smod kTicksPerSecond)
              | other \<Rightarrow> other)
         | other \<Rightarrow> other)"

fun dmul_double :: "Duration \<Rightarrow> double \<Rightarrow> Duration" where
  "dmul_double (Finite n) (Dbl m e) = ScaleDouble n (Dbl m e)"
| "dmul_double (Finite n) DPlusInf = (if n < 0 then MinusInf else PlusInf)"
| "dmul_double (Finite n) DMinusInf = (if n < 0 then PlusInf else MinusInf)"
| "dmul_double PlusInf r = (case r of Dbl m e \<Rightarrow> (if m < 0 then MinusInf else PlusInf)
                            | DPlusInf \<Rightarrow> PlusInf | DMinusInf \<Rightarrow> MinusInf)"
| "dmul_double MinusInf r = (case r of Dbl m e \<Rightarrow> (if m < 0 then PlusInf else MinusInf)
                             | DPlusInf \<Rightarrow> MinusInf | DMinusInf \<Rightarrow> PlusInf)"

section \<open>Calendar fields of a time\<close>

text \<open>
  \<^verbatim>\<open>absl::ToTM(t, absl::UTCTimeZone())\<close> and \<^verbatim>\<open>absl::FromDateTime\<close> convert between a
  time and the fields of the proleptic Gregorian calendar.

  Modelled from the spec: the calendar conversion of the time library in UTC.  Days are counted
  from 1970-01-01; \<open>year_start y\<close> counts the days from 0000-03-01 to the first of March of
  year \<open>y\<close>, which puts the leap day at the end of the counted year.
\<close>

definition year_start :: "int \<Rightarrow> int" where
  "year_start y = 365 * y + y div 4 - y div 100 + y div 400"

definition month_start :: "int \<Rightarrow> int" where
  "month_start mp = (153 * mp + 2) div 5"

definition days_from_civil :: "int \<Rightarrow> int \<Rightarrow> int \<Rightarrow> int" where
  "days_from_civil y m d =
     (let y' = (if m \<le> 2 then y - 1 else y); mp = (m + 9) mod 12
      in year_start y' + month_start mp + d - 1 - 719468)"

definition civil_from_days :: "int \<Rightarrow> int \<times> int \<times> int" where
  "civil_from_days z =
     (let g = z + 719468;
          y0 = (10000 * g + 20000) div 3652425;
          y' = (if year_start y0 \<le> g then y0 else y0 - 1);
          doy = g - year_start y';
          mp = (5 * doy + 2) div 153;
          d = doy - month_start mp + 1;
          m = (if mp < 10 then mp + 3 else mp - 9)
      in (if m \<le> 2 then y' + 1 else y', m, d))"

text \<open>The fields of \<^verbatim>\<open>struct tm\<close> that the code reads.\<close>

record tm =
  tm_year :: int
  tm_mon :: int
  tm_mday :: int
  tm_hour :: int

definition clamp_tm_year :: "int \<Rightarrow> int" where
  "clamp_tm_year y =
     (if y < - 2147483648 + 1900 then - 2147483648
      else if 2147483647 < y then 2147483647 - 1900
      else y - 1900)"

fun ToTM :: "Time \<Rightarrow> tm" where
  "ToTM (Finite n) =
     (let s = n div kTicksPerSecond;
          (y, m, d) = civil_from_days (s div 86400)
      in \<lparr>tm_year = clamp_tm_year y, tm_mon = m - 1, tm_mday = d,
          tm_hour = (s mod 86400) div 3600\<rparr>)"
| "ToTM PlusInf =
     \<lparr>tm_year = clamp_tm_year kint64max, tm_mon = 11, tm_mday = 31, tm_hour = 23\<rparr>"
| "ToTM MinusInf =
     \<lparr>tm_year = clamp_tm_year kint64min, tm_mon = 0, tm_mday = 1, tm_hour = 0\<rparr>"

definition FromDateTime :: "int \<Rightarrow> int \<Rightarrow> int \<Rightarrow> int \<Rightarrow> int \<Rightarrow> int \<Rightarrow> Time" where
  "FromDateTime y m d hh mm ss =
     (let n = ((days_from_civil y m d * 86400) + hh * 3600 + mm * 60 + ss) * kTicksPerSecond
      in if representable n then Finite n else if n < 0 then MinusInf else PlusInf)"

definition UnixEpoch :: Time where
  "UnixEpoch = Finite 0"

definition FromUnixSeconds :: "int \<Rightarrow> Time" where
  "FromUnixSeconds s = Finite (s * kTicksPerSecond)"

fun ToUnixSeconds :: "Time \<Rightarrow> int" where
  "ToUnixSeconds (Finite n) = n div kTicksPerSecond"
| "ToUnixSeconds PlusInf = kint64max"
| "ToUnixSeconds MinusInf = kint64min"

fun ToInt64Seconds :: "Duration \<Rightarrow> int" where
  "ToInt64Seconds (Finite n) = n sdiv kTicksPerSecond"
| "ToInt64Seconds PlusInf = kint64max"
| "ToInt64Seconds MinusInf = kint64min"

section \<open>Timescales (unsmear.h)\<close>

datatype TtBasedTimescale = TAI | GPST

definition TaiEpoch :: TaiTime where
  "TaiEpoch = ZeroDuration"

definition GpsEpoch :: GpsTime where
  "GpsEpoch = ZeroDuration"

fun TaiOffset :: "TtBasedTimescale \<Rightarrow> Duration" where
  "TaiOffset TAI = ZeroDuration"
| "TaiOffset GPST = Seconds (8040 * 86400 + 19)"

definition ToTaiTime :: "TtBasedTimescale \<Rightarrow> Duration \<Rightarrow> TaiTime" where
  "ToTaiTime ts t = dplus (dplus TaiEpoch (TaiOffset ts)) (dminus t ZeroDuration)"

definition ToGpsTime :: "TtBasedTimescale \<Rightarrow> Duration \<Rightarrow> GpsTime" where
  "ToGpsTime ts t = dplus (dminus GpsEpoch (TaiOffset GPST)) (dminus (ToTaiTime ts t) TaiEpoch)"

definition ModernUtcEpoch :: Time where
  "ModernUtcEpoch = FromUnixSeconds 63072000"

definition TaiModernUtcEpoch :: TaiTime where
  "TaiModernUtcEpoch = dplus (dplus TaiEpoch (dmul_int (Hours 24) 5113)) (Seconds 10)"

section \<open>Julian day numbers and the leap table (unsmear.cc)\<close>

text \<open>
  A Julian day number is a 32-bit \<^verbatim>\<open>int\<close> of the protobuf, modelled as an integer.  The code adds
  one to a day number only after its range check, and \<^verbatim>\<open>JdnToTime\<close> computes in 64 bits, so no
  day arithmetic of the code wraps.
\<close>

definition kMinJdn :: int where
  "kMinJdn = 2441347"

definition kMaxJdn :: int where
  "kMaxJdn = 5373483"

definition JdnToTime :: "int \<Rightarrow> Time" where
  "JdnToTime jdn = dplus (dplus UnixEpoch (Hours 12)) (dmul_int (Hours 24) (jdn - 2440588))"

definition cast_int32 :: "int \<Rightarrow> int" where
  "cast_int32 x = (x + 2147483648) mod 4294967296 - 2147483648"

definition ToJdnInt :: "Time \<Rightarrow> int" where
  "ToJdnInt t = cast_int32 (ToUnixSeconds (dminus t (Hours 12)) sdiv 86400) + 2440588"

record LeapTableEntry =
  utc :: Time
  tai :: TaiTime
  smear :: int

record LeapTableProto =
  positive_leaps :: "int list"
  negative_leaps :: "int list"
  end_jdn :: int

text \<open>A \<^verbatim>\<open>LeapTable\<close> is its vector \<^verbatim>\<open>entries_\<close>, latest entry first.\<close>

type_synonym LeapTable = "LeapTableEntry list"

definition expiration :: "LeapTable \<Rightarrow> Time" where
  "expiration lt = utc (hd lt)"

text \<open>
  The two entries of one leap second.  The loop writes \<open>(noon of jdn, 0)\<close> at index \<open>i\<close> and
  \<open>(noon of jdn + 1, smear)\<close> at index \<open>i - 1\<close>; a value-initialized entry has \<open>tai\<close> at
  the epoch.
\<close>

definition leap_entries :: "int \<Rightarrow> int \<Rightarrow> LeapTableEntry list" where
  "leap_entries sm jdn =
     [\<lparr>utc = JdnToTime (jdn + 1), tai = TaiEpoch, smear = sm\<rparr>,
      \<lparr>utc = JdnToTime jdn, tai = TaiEpoch, smear = 0\<rparr>]"

text \<open>
  The filling loops run from the back of the vector to its front: \<open>acc\<close> is the part of the
  vector already written (the higher indices).  A day number out of range ends construction.
\<close>

fun fill_leaps :: "int \<Rightarrow> int list \<Rightarrow> LeapTableEntry list \<Rightarrow> LeapTableEntry list option" where
  "fill_leaps sm [] acc = Some acc"
| "fill_leaps sm (jdn # jdns) acc =
     (if jdn < kMinJdn \<or> kMaxJdn < jdn then None
      else fill_leaps sm jdns (leap_entries sm jdn @ acc))"

text \<open>
  \<^verbatim>\<open>std::sort\<close> with the comparator \<open>a.utc > b.utc\<close>, as an insertion sort.  The order that
  \<^verbatim>\<open>std::sort\<close> gives to entries of equal \<open>utc\<close> is unspecified; construction fails on every
  vector that has two such entries, whichever their order.
\<close>

fun insert_desc :: "LeapTableEntry \<Rightarrow> LeapTableEntry list \<Rightarrow> LeapTableEntry list" where
  "insert_desc e [] = [e]"
| "insert_desc e (x # xs) =
     (if dless (utc e) (utc x) then x # insert_desc e xs else e # x # xs)"

definition sort_desc :: "LeapTableEntry list \<Rightarrow> LeapTableEntry list" where
  "sort_desc es = foldr insert_desc es []"

text \<open>
  The validation loop, from the entry before the last one up to the first: each entry is compared
  with the one below it and gets its \<open>tai\<close> from it.
\<close>

fun fill_tai :: "LeapTableEntry list \<Rightarrow> LeapTableEntry list option" where
  "fill_tai [] = Some []"
| "fill_tai [e] = Some [e]"
| "fill_tai (e # e' # es) =
     (case fill_tai (e' # es) of
        None \<Rightarrow> None
      | Some [] \<Rightarrow> None
      | Some (f # fs) \<Rightarrow>
          if utc e = utc f then None
          else if smear e \<noteq> 0 \<and> tm_mon (ToTM (utc e)) = tm_mon (ToTM (utc f)) then None
          else Some (e\<lparr>tai := dplus (dplus (tai f)
                                   (Seconds (ToInt64Seconds (dminus (utc e) (utc f)))))
                                 (Seconds (smear e))\<rparr> # f # fs))"

definition validate :: "Time \<Rightarrow> LeapTableEntry list \<Rightarrow> LeapTable option" where
  "validate expir es =
     (if utc (hd es) \<noteq> expir \<or> smear (hd es) \<noteq> 0 then None
      else if dless (utc (last es)) ModernUtcEpoch then None
      else fill_tai es)"

definition unsorted_entries :: "LeapTableProto \<Rightarrow> LeapTableEntry list option" where
  "unsorted_entries proto =
     (let front = \<lparr>utc = JdnToTime (end_jdn proto + 1), tai = TaiEpoch, smear = 0\<rparr>;
          back = \<lparr>utc = ModernUtcEpoch, tai = TaiModernUtcEpoch, smear = 0\<rparr>
      in case fill_leaps 1 (positive_leaps proto) [back] of
           None \<Rightarrow> None
         | Some acc \<Rightarrow>
             (case fill_leaps (- 1) (negative_leaps proto) acc of
                None \<Rightarrow> None
              | Some acc' \<Rightarrow> Some (front # acc')))"

definition NewLeapTableFromProto :: "LeapTableProto \<Rightarrow> LeapTable option" where
  "NewLeapTableFromProto proto =
     (if end_jdn proto < kMinJdn \<or> kMaxJdn < end_jdn proto then None
      else if tm_mday (ToTM (dplus (JdnToTime (end_jdn proto + 1)) (Hours 24))) \<noteq> 1 then None
      else case unsorted_entries proto of
             None \<Rightarrow> None
           | Some es \<Rightarrow> validate (JdnToTime (end_jdn proto + 1)) (sort_desc es))"

definition ToProto :: "LeapTable \<Rightarrow> LeapTableProto" where
  "ToProto lt =
     \<lparr>positive_leaps = map (\<lambda>e. ToJdnInt (utc e) - 1) (filter (\<lambda>e. smear e = 1) (rev (tl lt))),
      negative_leaps = map (\<lambda>e. ToJdnInt (utc e) - 1) (filter (\<lambda>e. smear e = - 1) (rev (tl lt))),
      end_jdn = ToJdnInt (utc (hd lt)) - 1\<rparr>"

text \<open>\<^verbatim>\<open>LeapTable::operator==\<close>.\<close>

definition LeapTable_eq :: "LeapTable \<Rightarrow> LeapTable \<Rightarrow> bool" where
  "LeapTable_eq a b \<longleftrightarrow>
     length a = length b \<and>
     (\<forall>i < length a. utc (a ! i) = utc (b ! i) \<and> tai (a ! i) = tai (b ! i)
                     \<and> smear (a ! i) = smear (b ! i))"

section \<open>Smearing and unsmearing\<close>

definition Interpolate_tai :: "LeapTableEntry \<Rightarrow> TaiTime \<Rightarrow> Time" where
  "Interpolate_tai e t =
     (let d = dminus (tai e) t; t' = dminus (utc e) d
      in if smear e \<noteq> 0
         then dplus t' (dmul_double (Seconds (smear e))
                          (FDivDuration d (dplus (Hours 24) (Seconds (smear e)))))
         else t')"

definition Interpolate_utc :: "LeapTableEntry \<Rightarrow> Time \<Rightarrow> TaiTime" where
  "Interpolate_utc e u =
     (let d = dminus (utc e) u; t = dminus (tai e) d
      in if smear e \<noteq> 0
         then dminus t (dmul_double (Seconds (smear e)) (FDivDuration d (Hours 24)))
         else t)"

definition IsJustBeforeMonthEnd :: "tm \<Rightarrow> bool" where
  "IsJustBeforeMonthEnd t =
     (if tm_hour t < 12 then False
      else if tm_mon t = 0 then tm_mday t = 31
      else if tm_mon t = 1 then
        (if tm_year t smod 4 = 0 \<and> (tm_year t smod 100 \<noteq> 0 \<or> tm_year t smod 400 = 0)
         then tm_mday t = 29 else tm_mday t = 28)
      else if tm_mon t = 2 then tm_mday t = 31
      else if tm_mon t = 3 then tm_mday t = 30
      else if tm_mon t = 4 then tm_mday t = 31
      else if tm_mon t = 5 then tm_mday t = 30
      else if tm_mon t = 6 then tm_mday t = 31
      else if tm_mon t = 7 then tm_mday t = 31
      else if tm_mon t = 8 then tm_mday t = 30
      else if tm_mon t = 9 then tm_mday t = 31
      else if tm_mon t = 10 then tm_mday t = 30
      else if tm_mon t = 11 then tm_mday t = 31
      else False)"

text \<open>\<^verbatim>\<open>Advance\<close> returns the pair \<open>(neg, pos)\<close> of hypothetical entries.\<close>

definition Advance :: "LeapTableEntry \<Rightarrow> Time \<Rightarrow> LeapTableEntry \<times> LeapTableEntry" where
  "Advance e t =
     (let e_tm = ToTM (utc e); t_tm = ToTM t;
          leaps = (tm_year t_tm - tm_year e_tm) * 12 + (tm_mon t_tm - tm_mon e_tm);
          year = tm_year t_tm + 1900; month = tm_mon t_tm + 1; day = tm_mday t_tm;
          (leaps', neg_utc, neg_smear, pos_smear) =
            (if IsJustBeforeMonthEnd t_tm then
               (leaps + 1,
                FromDateTime (if month = 12 then year + 1 else year)
                             (if month = 12 then 1 else month + 1) 1 12 0 0,
                - 1, 1)
             else if day = 1 \<and> tm_hour t_tm < 12 then
               (leaps, FromDateTime year month day 12 0 0, - 1, 1)
             else
               (leaps, FromDateTime year month (day + 1) 12 0 0, 0, 0))
      in (\<lparr>utc = neg_utc,
           tai = dminus (dplus (tai e) (dminus neg_utc (utc e))) (Seconds leaps'),
           smear = neg_smear\<rparr>,
          \<lparr>utc = neg_utc,
           tai = dplus (dplus (tai e) (dminus neg_utc (utc e))) (Seconds leaps'),
           smear = pos_smear\<rparr>))"

text \<open>
  The search loops of the two conversions: the first index \<open>i \<ge> 1\<close> whose entry is not after
  \<open>x\<close> selects entry \<open>i - 1\<close>; running off the end selects nothing.
\<close>

fun seek :: "(LeapTableEntry \<Rightarrow> Duration) \<Rightarrow> Duration \<Rightarrow> LeapTableEntry list
             \<Rightarrow> LeapTableEntry option" where
  "seek key x (a # b # es) = (if dle (key b) x then Some a else seek key x (b # es))"
| "seek key x es = None"

definition FutureProofSmear :: "TtBasedTimescale \<Rightarrow> LeapTable \<Rightarrow> Duration \<Rightarrow> Time \<times> Time" where
  "FutureProofSmear ts lt t =
     (if t = PlusInf then (PlusInf, PlusInf)
      else if t = MinusInf then (MinusInf, MinusInf)
      else if dless t ZeroDuration then (MinusInf, PlusInf)
      else let ta = ToTaiTime ts t; expir = hd lt
           in if dle ta (tai expir) then
                (case seek tai ta lt of
                   None \<Rightarrow> (MinusInf, PlusInf)
                 | Some e \<Rightarrow> (Interpolate_tai e ta, Interpolate_tai e ta))
              else let (neg, pos) = Advance expir (dplus (utc expir) (dminus ta (tai expir)))
                   in (Interpolate_tai pos ta, Interpolate_tai neg ta))"

definition FutureProofUnsmear :: "LeapTable \<Rightarrow> Time \<Rightarrow> TaiTime \<times> TaiTime" where
  "FutureProofUnsmear lt u =
     (if u = PlusInf then (PlusInf, PlusInf)
      else if u = MinusInf then (MinusInf, MinusInf)
      else let expir = hd lt
           in if dle u (utc expir) then
                (case seek utc u lt of
                   None \<Rightarrow> (MinusInf, PlusInf)
                 | Some e \<Rightarrow> (Interpolate_utc e u, Interpolate_utc e u))
              else let (neg, pos) = Advance expir u
                   in (Interpolate_utc neg u, Interpolate_utc pos u))"

definition Smear :: "TtBasedTimescale \<Rightarrow> LeapTable \<Rightarrow> Duration \<Rightarrow> Time option" where
  "Smear ts lt t =
     (let interval = FutureProofSmear ts lt t
      in if fst interval \<noteq> snd interval then None else Some (fst interval))"

definition Unsmear :: "LeapTable \<Rightarrow> Time \<Rightarrow> TaiTime option" where
  "Unsmear lt u =
     (let interval = FutureProofUnsmear lt u
      in if fst interval \<noteq> snd interval then None else Some (fst interval))"

section \<open>Formatting with a user-specified format (format.cc)\<close>

text \<open>
  \<^verbatim>\<open>ToUnixTime\<close> divides the offset from the epoch by one nanosecond (the library's
  \<^verbatim>\<open>IDivDuration\<close>: a quotient truncated towards zero and saturated to 64 bits) and shifts the
  result to the Unix epoch.
\<close>

fun ZoneName :: "TtBasedTimescale \<Rightarrow> string" where
  "ZoneName TAI = ''TAI''"
| "ZoneName GPST = ''GPST''"

fun FutureName :: "TtBasedTimescale \<Rightarrow> string" where
  "FutureName TAI = ''tai-infinite-future''"
| "FutureName GPST = ''gpst-infinite-future''"

fun PastName :: "TtBasedTimescale \<Rightarrow> string" where
  "PastName TAI = ''tai-infinite-past''"
| "PastName GPST = ''gpst-infinite-past''"

fun IDivDuration :: "Duration \<Rightarrow> Duration \<Rightarrow> int" where
  "IDivDuration (Finite a) (Finite b) =
     (if b = 0 then (if a < 0 then kint64min else kint64max)
      else max kint64min (min kint64max (a sdiv b)))"
| "IDivDuration (Finite a) den = 0"
| "IDivDuration num den =
     (if dless num ZeroDuration = dless den ZeroDuration then kint64max else kint64min)"

definition FromUnixNanos :: "int \<Rightarrow> Time" where
  "FromUnixNanos ns = Finite (ns * 4)"

fun ToUnixTime :: "TtBasedTimescale \<Rightarrow> Duration \<Rightarrow> Time" where
  "ToUnixTime TAI t =
     dminus (FromUnixNanos (IDivDuration (dminus t TaiEpoch) (Nanoseconds 1))) (dmul_int (Hours 24) 4383)"
| "ToUnixTime GPST t =
     dplus (FromUnixNanos (IDivDuration (dminus t GpsEpoch) (Nanoseconds 1))) (dmul_int (Hours 24) 3657)"

text \<open>
  The body of the loop over the characters of the format: the state is the string built so far
  and the flag \<^verbatim>\<open>saw_percent\<close>.
\<close>

definition format_step :: "TtBasedTimescale \<Rightarrow> char \<Rightarrow> string \<times> bool \<Rightarrow> string \<times> bool" where
  "format_step ts c st =
     (let (s, saw_percent) = st in
      if saw_percent then
        (if c = CHR ''Z'' then (s @ ZoneName ts, False) else (s @ [CHR ''%'', c], False))
      else
        (if c = CHR ''%'' then (s, True) else (s @ [c], False)))"

definition replace_zone :: "TtBasedTimescale \<Rightarrow> string \<Rightarrow> string" where
  "replace_zone ts format =
     (let (s, saw_percent) = fold (format_step ts) format ([], False)
      in if saw_percent then s @ [CHR ''%''] else s)"

text \<open>
  \<^verbatim>\<open>absl::FormatTime\<close>, the formatter of the library, is a parameter: it receives the rewritten
  format and the time (always in UTC).
\<close>

definition FormatTime :: "(string \<Rightarrow> Time \<Rightarrow> string) \<Rightarrow> TtBasedTimescale \<Rightarrow> string \<Rightarrow> Duration \<Rightarrow> string" where
  "FormatTime absl_FormatTime ts format t =
     (if t = PlusInf then FutureName ts
      else if t = MinusInf then PastName ts
      else absl_FormatTime (replace_zone ts format) (ToUnixTime ts t))"

text \<open>
  The reading of a format string on which the claim about \<^verbatim>\<open>%Z\<close> rests: from left to right, a
  percent sign and the character after it form one specifier (so \<^verbatim>\<open>%%\<close> is the escaped
  percent sign), every other character stands for itself.  The substitution replaces the
  specifiers \<^verbatim>\<open>%Z\<close> and nothing else.
\<close>

fun specifiers :: "string \<Rightarrow> string list" where
  "specifiers [] = []"
| "specifiers [c] = [[c]]"
| "specifiers (c # c' # cs) =
     (if c = CHR ''%'' then [c, c'] # specifiers cs else [c] # specifiers (c' # cs))"

definition substitute_zone :: "TtBasedTimescale \<Rightarrow> string \<Rightarrow> string" where
  "substitute_zone ts format =
     concat (map (\<lambda>sp. if sp = ''%Z'' then ZoneName ts else sp) (specifiers format))"

section \<open>Auxiliary notions for the proofs\<close>

text \<open>The comparison of durations is a linear order.\<close>

instantiation Duration :: linorder
begin

definition less_Duration :: "Duration \<Rightarrow> Duration \<Rightarrow> bool" where
  "less_Duration a b = dless a b"

definition less_eq_Duration :: "Duration \<Rightarrow> Duration \<Rightarrow> bool" where
  "less_eq_Duration a b = dle a b"

instance
proof
  fix x y z :: Duration
  show "(x < y) = (x \<le> y \<and> \<not> y \<le> x)"
    by (cases x; cases y) (auto simp: less_Duration_def less_eq_Duration_def dle_def)
  show "x \<le> x"
    by (cases x) (auto simp: less_eq_Duration_def dle_def)
  show "x \<le> y \<Longrightarrow> y \<le> z \<Longrightarrow> x \<le> z"
    by (cases x; cases y; cases z) (auto simp: less_eq_Duration_def dle_def)
  show "x \<le> y \<Longrightarrow> y \<le> x \<Longrightarrow> x = y"
    by (cases x; cases y) (auto simp: less_eq_Duration_def dle_def)
  show "x \<le> y \<or> y \<le> x"
    by (cases x; cases y) (auto simp: less_eq_Duration_def dle_def)
qed

end

text \<open>The tick count of noon UTC of a Julian day number.\<close>

definition noon_ticks :: "int \<Rightarrow> int" where
  "noon_ticks jdn = ((jdn - 2440588) * 86400 + 43200) * 4000000000"

definition all_in_range :: "LeapTableProto \<Rightarrow> bool" where
  "all_in_range proto =
     list_all (\<lambda>j. kMinJdn \<le> j \<and> j \<le> kMaxJdn) (positive_leaps proto @ negative_leaps proto)"

definition front_entry :: "LeapTableProto \<Rightarrow> LeapTableEntry" where
  "front_entry proto = \<lparr>utc = JdnToTime (end_jdn proto + 1), tai = TaiEpoch, smear = 0\<rparr>"

definition back_entry :: LeapTableEntry where
  "back_entry = \<lparr>utc = ModernUtcEpoch, tai = TaiModernUtcEpoch, smear = 0\<rparr>"

text \<open>The leap day that \<^verbatim>\<open>ToProto\<close> emits for an entry, and the two fields that the sort and the
  validation read.\<close>

definition leap_day :: "LeapTableEntry \<Rightarrow> int" where
  "leap_day e = ToJdnInt (utc e) - 1"

definition entry_key :: "LeapTableEntry \<Rightarrow> Time \<times> int" where
  "entry_key e = (utc e, smear e)"

text \<open>
  Facts about the entries of a table under construction.  Every \<open>utc\<close> is a whole number of
  half days (43200 s, in ticks) between the modern UTC epoch and noon of day \<open>kMaxJdn + 1\<close>; in a
  finished table \<open>tai - utc\<close> differs from its value at the epoch by at most one second per half
  day elapsed, which keeps every sum of the validation loop far from saturation.
\<close>

definition kHalfDay :: int where
  "kHalfDay = 172800000000000"

definition key_ok :: "LeapTableEntry \<Rightarrow> bool" where
  "key_ok e =
     ((case utc e of
         Finite a \<Rightarrow> kHalfDay dvd a \<and> 1460 * kHalfDay \<le> a \<and> a \<le> 5865793 * kHalfDay
       | _ \<Rightarrow> False)
      \<and> (smear e = - 1 \<or> smear e = 0 \<or> smear e = 1))"

definition entry_ok :: "LeapTableEntry \<Rightarrow> bool" where
  "entry_ok e =
     (key_ok e \<and>
      (case (utc e, tai e) of
         (Finite a, Finite c) \<Rightarrow> \<bar>c - a - 1514764840000000000\<bar> * 43200 \<le> a - 1460 * kHalfDay
       | _ \<Rightarrow> False))"

text \<open>The year found by \<open>civil_from_days\<close>, counted from March.\<close>

definition year_of :: "int \<Rightarrow> int" where
  "year_of g = (let y0 = (10000 * g + 20000) div 3652425
                in if year_start y0 \<le> g then y0 else y0 - 1)"

text \<open>The result of the formatting loop from a given state.\<close>

definition loop_result :: "TtBasedTimescale \<Rightarrow> string \<Rightarrow> string \<times> bool \<Rightarrow> string" where
  "loop_result ts cs st =
     (let (s, saw_percent) = fold (format_step ts) cs st
      in if saw_percent then s @ [CHR ''%''] else s)"

text \<open>
  The value of a finite double, and the doubles whose significand needs no further rounding.
\<close>

fun dval :: "double \<Rightarrow> real" where
  "dval (Dbl m e) = (if 0 \<le> e then of_int m * 2 ^ nat e else of_int m / 2 ^ nat (- e))"
| "dval DPlusInf = 0"
| "dval DMinusInf = 0"

fun finite53 :: "double \<Rightarrow> bool" where
  "finite53 (Dbl m e) = (\<bar>m\<bar> \<le> 2 ^ 53)"
| "finite53 DPlusInf = False"
| "finite53 DMinusInf = False"

text \<open>
  The times at which the scaled fraction of the smear is a tie of the rounding: in the 24 hours
  before the end of the smear of a negative leap second (an entry with \<open>smear = -1\<close>), at
  43200 ticks (10.8 microseconds) plus a whole multiple of 86400 ticks before that end.
\<close>

definition at_rounding_tie :: "LeapTable \<Rightarrow> int \<Rightarrow> bool" where
  "at_rounding_tie lt n =
     list_ex (\<lambda>e. smear e = - 1 \<and>
                  (case utc e of
                     Finite a \<Rightarrow> a - 345600000000000 < n \<and> n < a \<and> (a - n) mod 86400 = 43200
                   | _ \<Rightarrow> False)) lt"

section \<open>Basic facts\<close>

lemma dless_iff: "dless a b \<longleftrightarrow> a < b"
  by (simp add: less_Duration_def)

lemma dle_iff: "dle a b \<longleftrightarrow> a \<le> b"
  by (simp add: less_eq_Duration_def)

lemma Finite_less [simp]: "Finite a < Finite b \<longleftrightarrow> a < b"
  by (simp add: less_Duration_def)

lemma Finite_le [simp]: "Finite a \<le> Finite b \<longleftrightarrow> a \<le> b"
  by (auto simp: less_eq_Duration_def dle_def)

lemma JdnToTime_Finite:
  assumes "- 2147483648 \<le> jdn" "jdn \<le> 2147483648"
  shows "JdnToTime jdn = Finite (noon_ticks jdn)"
  using assms
  by (simp add: JdnToTime_def UnixEpoch_def Hours_def kint64max_def kint64min_def
      kTicksPerSecond_def representable_def noon_ticks_def)

lemma JdnToTime_plus_day:
  assumes "- 2147483648 \<le> jdn" "jdn < 2147483648"
  shows "dplus (JdnToTime jdn) (Hours 24) = JdnToTime (jdn + 1)"
  using assms
  by (simp add: JdnToTime_Finite)
     (simp add: Hours_def kint64max_def kint64min_def kTicksPerSecond_def representable_def
      noon_ticks_def)

lemma ToJdnInt_JdnToTime:
  assumes "2440588 \<le> jdn" "jdn \<le> 2147483647"
  shows "ToJdnInt (JdnToTime jdn) = jdn"
proof -
  have "((jdn - 2440588) * 86400 + 43200) * 4000000000 - 172800000000000
        = ((jdn - 2440588) * 86400) * 4000000000" by simp
  then show ?thesis
    using assms
    by (simp add: JdnToTime_Finite ToJdnInt_def)
       (simp add: Hours_def kint64max_def kint64min_def kTicksPerSecond_def representable_def
         noon_ticks_def cast_int32_def signed_divide_int_def sgn_if)
qed

lemma noon_div: "(c * 86400 + 43200) div 86400 = (c::int)"
proof -
  have "(c * 86400 + 43200) div 86400 = c + 43200 div (86400::int)"
    by (rule div_mult_self3) simp
  then show ?thesis by simp
qed

lemma noon_mod: "(c * 86400 + 43200) mod 86400 = (43200::int)"
proof -
  have "(c * 86400 + 43200) mod 86400 = 43200 mod (86400::int)"
    by (rule mod_mult_self3)
  then show ?thesis by simp
qed

lemma ToTM_noon:
  "ToTM (Finite (noon_ticks j)) =
     (case civil_from_days (j - 2440588) of
        (y, m, d) \<Rightarrow> \<lparr>tm_year = clamp_tm_year y, tm_mon = m - 1, tm_mday = d, tm_hour = 12\<rparr>)"
proof -
  have a: "noon_ticks j div kTicksPerSecond = (j - 2440588) * 86400 + 43200"
    by (simp add: noon_ticks_def kTicksPerSecond_def)
  show ?thesis
    by (simp only: ToTM.simps a noon_div noon_mod Let_def) (simp split: prod.splits)
qed

subsection \<open>The unsorted vector\<close>

lemma fill_leaps_eq:
  "fill_leaps sm jdns acc =
     (if \<forall>j \<in> set jdns. kMinJdn \<le> j \<and> j \<le> kMaxJdn
      then Some (concat (map (leap_entries sm) (rev jdns)) @ acc) else None)"
  by (induction jdns arbitrary: acc) auto

lemma unsorted_entries_eq:
  "unsorted_entries proto =
     (if all_in_range proto
      then Some (front_entry proto #
                 concat (map (leap_entries (- 1)) (rev (negative_leaps proto))) @
                 concat (map (leap_entries 1) (rev (positive_leaps proto))) @ [back_entry])
      else None)"
  by (auto simp: unsorted_entries_def fill_leaps_eq all_in_range_def front_entry_def
      back_entry_def Let_def list_all_iff)

subsection \<open>Sorting and the validation loop\<close>

lemma mset_insert_desc: "mset (insert_desc e xs) = add_mset e (mset xs)"
  by (induction xs) auto

lemma mset_sort_desc: "mset (sort_desc es) = mset es"
  unfolding sort_desc_def by (induction es) (auto simp: mset_insert_desc)

lemma set_insert_desc: "set (insert_desc e xs) = insert e (set xs)"
  by (induction xs) auto

lemma sorted_insert_desc:
  "sorted_wrt (\<lambda>a b. utc b \<le> utc a) xs \<Longrightarrow> sorted_wrt (\<lambda>a b. utc b \<le> utc a) (insert_desc e xs)"
  by (induction xs) (auto simp: set_insert_desc dless_iff)

lemma sorted_sort_desc: "sorted_wrt (\<lambda>a b. utc b \<le> utc a) (sort_desc es)"
  unfolding sort_desc_def by (induction es) (auto simp: sorted_insert_desc)

lemma fill_tai_keys:
  "fill_tai es = Some fs \<Longrightarrow> map utc fs = map utc es \<and> map smear fs = map smear es"
proof (induction es arbitrary: fs rule: fill_tai.induct)
  case (3 e e' es)
  then show ?case
    by (auto split: option.splits list.splits if_splits)
qed auto

lemma fill_tai_adjacent:
  "fill_tai es = Some fs \<Longrightarrow> successively (\<lambda>a b. utc a \<noteq> utc b) es"
proof (induction es arbitrary: fs rule: fill_tai.induct)
  case (3 e e' es)
  from "3.prems" obtain f fs' where f: "fill_tai (e' # es) = Some (f # fs')" and ne: "utc e \<noteq> utc f"
    by (auto split: option.splits list.splits if_splits)
  from fill_tai_keys[OF f] have "utc f = utc e'" by simp
  with ne "3.IH"[OF f] show ?case by simp
qed auto

lemma strict_of_sorted_adjacent:
  "sorted_wrt (\<lambda>a b. utc b \<le> utc a) es \<Longrightarrow> successively (\<lambda>a b. utc a \<noteq> utc b) es
   \<Longrightarrow> sorted_wrt (\<lambda>a b. utc b < utc a) es"
proof (induction es rule: induct_list012)
  case (3 x y zs)
  then have "sorted_wrt (\<lambda>a b. utc b < utc a) (y # zs)" by simp
  moreover from 3 have "utc y < utc x" by (auto simp: less_le)
  ultimately show ?case by auto
qed auto

lemma strict_sorted_distinct:
  "sorted_wrt (\<lambda>a b. utc b < utc a) es \<Longrightarrow> distinct (map utc es)"
  by (induction es) auto

lemma validate_strict:
  assumes "validate x es = Some lt" "sorted_wrt (\<lambda>a b. utc b \<le> utc a) es"
  shows "sorted_wrt (\<lambda>a b. utc b < utc a) es"
proof -
  from assms(1) have "fill_tai es = Some lt"
    by (auto simp: validate_def split: if_splits)
  then show ?thesis
    using assms(2) fill_tai_adjacent strict_of_sorted_adjacent by blast
qed

lemma validate_hd:
  assumes "validate x es = Some lt" "es \<noteq> []"
  shows "utc (hd lt) = x \<and> smear (hd lt) = 0"
proof -
  from assms have f: "fill_tai es = Some lt" and h: "utc (hd es) = x" "smear (hd es) = 0"
    by (auto simp: validate_def split: if_splits)
  from fill_tai_keys[OF f] have "map utc lt = map utc es" "map smear lt = map smear es" by auto
  moreover from this assms(2) have "lt \<noteq> []" by auto
  ultimately show ?thesis using h assms(2) by (metis hd_map)
qed

text \<open>
  Whatever order the sort gives to entries of equal \<open>utc\<close>, a vector with two such entries is
  rejected: either the front check or the duplicate check of the validation loop fails.
\<close>

lemma duplicate_utc_rejected:
  assumes "\<not> distinct (map utc es)" "mset es' = mset es"
    and "sorted_wrt (\<lambda>a b. utc b \<le> utc a) es'"
  shows "validate x es' = None"
proof (rule ccontr)
  assume "validate x es' \<noteq> None"
  then obtain lt where "validate x es' = Some lt" by auto
  from validate_strict[OF this assms(3)] have "distinct (map utc es')"
    by (rule strict_sorted_distinct)
  moreover have "mset (map utc es') = mset (map utc es)" using assms(2) by simp
  ultimately have "distinct (map utc es)"
    by (metis mset_eq_imp_distinct_iff)
  with assms(1) show False by simp
qed

section \<open>Invariants of a constructed table\<close>

lemma tai_step:
  assumes "kHalfDay dvd a" "kHalfDay dvd b" "b < a" "1460 * kHalfDay \<le> b" "a \<le> 5865793 * kHalfDay"
    and "\<bar>c - b - 1514764840000000000\<bar> * 43200 \<le> b - 1460 * kHalfDay"
    and "sm = - 1 \<or> sm = 0 \<or> sm = 1"
  shows "dplus (dplus (Finite c) (Seconds (ToInt64Seconds (dminus (Finite a) (Finite b)))))
               (Seconds sm) = Finite (c + (a - b) + sm * 4000000000)"
    and "\<bar>c + (a - b) + sm * 4000000000 - a - 1514764840000000000\<bar> * 43200 \<le> a - 1460 * kHalfDay"
    and "c < c + (a - b) + sm * 4000000000"
proof -
  from assms(1,2) obtain k l where a: "a = 172800000000000 * k" and b: "b = 172800000000000 * l"
    by (auto simp: kHalfDay_def dvd_def)
  from assms(3) a b have kl: "l + 1 \<le> k" by simp
  from assms(4,5) a b have lk: "1460 \<le> l" "k \<le> 5865793" by (simp_all add: kHalfDay_def)
  have d: "dminus (Finite a) (Finite b) = Finite (172800000000000 * (k - l))"
    using kl lk unfolding a b
    by (simp add: representable_def kint64max_def kint64min_def kTicksPerSecond_def algebra_simps)
  have "172800000000000 * (k - l) = (43200 * (k - l)) * 4000000000" by simp
  then have s: "ToInt64Seconds (Finite (172800000000000 * (k - l))) = 43200 * (k - l)"
    using kl by (simp add: kTicksPerSecond_def signed_divide_int_def sgn_if del: mult_cancel_right)
  from assms(6) have c: "\<bar>c - b - 1514764840000000000\<bar> * 43200 \<le> 172800000000000 * (l - 1460)"
    unfolding b by (simp add: kHalfDay_def algebra_simps)
  have cancel: "X * 43200 \<le> 172800000000000 * Y \<Longrightarrow> X \<le> 4000000000 * Y" for X Y :: int
    by simp
  from c have cb: "\<bar>c - b - 1514764840000000000\<bar> \<le> 4000000000 * (l - 1460)"
    by (rule cancel)
  show "dplus (dplus (Finite c) (Seconds (ToInt64Seconds (dminus (Finite a) (Finite b)))))
               (Seconds sm) = Finite (c + (a - b) + sm * 4000000000)"
    unfolding d s using cb kl lk assms(7) unfolding a b
    by (auto simp: Seconds_def representable_def kint64max_def kint64min_def kTicksPerSecond_def)
  have "\<bar>c + (a - b) + sm * 4000000000 - a - 1514764840000000000\<bar> \<le> 4000000000 * (k - 1460)"
    using cb kl assms(7) unfolding a b by (auto simp: abs_le_iff)
  then have "\<bar>c + (a - b) + sm * 4000000000 - a - 1514764840000000000\<bar> * 43200
             \<le> (4000000000 * (k - 1460)) * 43200"
    by (rule mult_right_mono) simp
  then show "\<bar>c + (a - b) + sm * 4000000000 - a - 1514764840000000000\<bar> * 43200 \<le> a - 1460 * kHalfDay"
    unfolding a kHalfDay_def by (simp add: algebra_simps)
  show "c < c + (a - b) + sm * 4000000000"
    using kl assms(7) unfolding a b by auto
qed


lemma noon_key_ok:
  assumes "kMinJdn \<le> j" "j \<le> kMaxJdn + 1"
  shows "key_ok \<lparr>utc = JdnToTime j, tai = t, smear = sm\<rparr> \<longleftrightarrow> (sm = - 1 \<or> sm = 0 \<or> sm = 1)"
proof -
  have j: "JdnToTime j = Finite (noon_ticks j)"
    using assms by (intro JdnToTime_Finite) (auto simp: kMinJdn_def kMaxJdn_def)
  have n: "noon_ticks j = 172800000000000 * (2 * (j - 2440588) + 1)"
    by (simp add: noon_ticks_def algebra_simps)
  show ?thesis
    using assms unfolding key_ok_def by (simp add: j n kHalfDay_def kMinJdn_def kMaxJdn_def)
qed

lemma back_entry_ok: "entry_ok back_entry"
  by (simp add: entry_ok_def key_ok_def back_entry_def ModernUtcEpoch_def FromUnixSeconds_def
      TaiModernUtcEpoch_def TaiEpoch_def ZeroDuration_def Hours_def Seconds_def kHalfDay_def
      kTicksPerSecond_def kint64max_def kint64min_def representable_def)

lemma key_ok_unsorted:
  assumes "unsorted_entries proto = Some es" "kMinJdn \<le> end_jdn proto" "end_jdn proto \<le> kMaxJdn"
  shows "\<forall>e \<in> set es. key_ok e"
proof -
  from assms(1) have r: "all_in_range proto"
    and es: "es = front_entry proto #
                 concat (map (leap_entries (- 1)) (rev (negative_leaps proto))) @
                 concat (map (leap_entries 1) (rev (positive_leaps proto))) @ [back_entry]"
    by (auto simp: unsorted_entries_eq split: if_splits)
  have f: "key_ok (front_entry proto)"
    unfolding front_entry_def using assms(2,3) by (subst noon_key_ok) auto
  have l: "key_ok e" if "e \<in> set (leap_entries sm j)" "kMinJdn \<le> j" "j \<le> kMaxJdn"
    "sm = 1 \<or> sm = - 1" for e sm j
    using that noon_key_ok[of j TaiEpoch 0] noon_key_ok[of "j + 1" TaiEpoch sm]
    by (auto simp: leap_entries_def)
  have b: "key_ok back_entry" using back_entry_ok by (simp add: entry_ok_def)
  show ?thesis
    unfolding es using f b l r by (auto simp: all_in_range_def list_all_iff)
qed

lemma fill_tai_inv:
  assumes "fill_tai es = Some fs" "sorted_wrt (\<lambda>a b. utc b < utc a) es" "\<forall>e \<in> set es. key_ok e"
    and "es \<noteq> []" "last es = back_entry"
  shows "(\<forall>e \<in> set fs. entry_ok e) \<and> sorted_wrt (\<lambda>a b. tai b < tai a) fs \<and> last fs = back_entry"
  using assms
proof (induction es arbitrary: fs rule: fill_tai.induct)
  case 1
  then show ?case by simp
next
  case (2 e)
  then have "fs = [e]" "e = back_entry" by auto
  then show ?case using back_entry_ok by simp
next
  case (3 e e' es)
  from "3.prems"(1) obtain f fs' where f: "fill_tai (e' # es) = Some (f # fs')"
    and fs: "fs = e\<lparr>tai := dplus (dplus (tai f) (Seconds (ToInt64Seconds (dminus (utc e) (utc f)))))
                                (Seconds (smear e))\<rparr> # f # fs'"
    by (auto split: option.splits list.splits if_splits)
  from "3.prems" have ih: "(\<forall>x \<in> set (f # fs'). entry_ok x) \<and> sorted_wrt (\<lambda>a b. tai b < tai a) (f # fs')
      \<and> last (f # fs') = back_entry"
    by (intro "3.IH"[OF f]) auto
  from fill_tai_keys[OF f] have uf: "utc f = utc e'" by simp
  from "3.prems"(2) uf have lt: "utc f < utc e" by simp
  from ih have okf: "entry_ok f" by simp
  from "3.prems"(3) have oke: "key_ok e" by simp
  from okf obtain b c where b: "utc f = Finite b" and c: "tai f = Finite c"
    by (auto simp: entry_ok_def key_ok_def split: Duration.splits)
  from oke obtain a where a: "utc e = Finite a"
    by (auto simp: key_ok_def split: Duration.splits)
  from okf b c have fb: "kHalfDay dvd b" "1460 * kHalfDay \<le> b"
    "\<bar>c - b - 1514764840000000000\<bar> * 43200 \<le> b - 1460 * kHalfDay"
    by (auto simp: entry_ok_def key_ok_def)
  from oke a have ea: "kHalfDay dvd a" "a \<le> 5865793 * kHalfDay"
    "smear e = - 1 \<or> smear e = 0 \<or> smear e = 1"
    by (auto simp: key_ok_def)
  from lt a b have ba: "b < a" by simp
  note st = tai_step[OF ea(1) fb(1) ba fb(2) ea(2) fb(3) ea(3)]
  let ?e = "e\<lparr>tai := Finite (c + (a - b) + smear e * 4000000000)\<rparr>"
  have fs': "fs = ?e # f # fs'"
    unfolding fs a b c st(1) ..
  have "entry_ok ?e"
    using oke a st(2) by (simp add: entry_ok_def key_ok_def)
  moreover have "tai f < tai ?e" using c st(3) by simp
  moreover from this ih have "\<forall>x \<in> set fs'. tai x < tai ?e" by auto
  ultimately show ?case using ih unfolding fs' by auto
qed

lemma successively_nth:
  "successively P xs \<Longrightarrow> Suc i < length xs \<Longrightarrow> P (xs ! i) (xs ! Suc i)"
proof (induction xs arbitrary: i rule: induct_list012)
  case (3 x y zs)
  then show ?case by (cases i) auto
qed auto

lemma fill_tai_steps:
  assumes "fill_tai es = Some fs" "sorted_wrt (\<lambda>a b. utc b < utc a) es" "\<forall>e \<in> set es. key_ok e"
    and "es \<noteq> []" "last es = back_entry"
  shows "successively (\<lambda>x y. \<exists>a b c. utc x = Finite a \<and> utc y = Finite b \<and> tai y = Finite c
            \<and> tai x = Finite (c + (a - b) + smear x * 4000000000)) fs"
  using assms
proof (induction es arbitrary: fs rule: fill_tai.induct)
  case 1
  then show ?case by simp
next
  case (2 e)
  then show ?case by auto
next
  case (3 e e' es)
  from "3.prems"(1) obtain f fs' where f: "fill_tai (e' # es) = Some (f # fs')"
    and fs: "fs = e\<lparr>tai := dplus (dplus (tai f) (Seconds (ToInt64Seconds (dminus (utc e) (utc f)))))
                                (Seconds (smear e))\<rparr> # f # fs'"
    by (auto split: option.splits list.splits if_splits)
  from "3.prems" have tl: "sorted_wrt (\<lambda>a b. utc b < utc a) (e' # es)" "\<forall>x \<in> set (e' # es). key_ok x"
    "e' # es \<noteq> []" "last (e' # es) = back_entry"
    by auto
  from "3.IH"[OF f tl] have ih: "successively (\<lambda>x y. \<exists>a b c. utc x = Finite a \<and> utc y = Finite b
            \<and> tai y = Finite c \<and> tai x = Finite (c + (a - b) + smear x * 4000000000)) (f # fs')" .
  from fill_tai_inv[OF f tl] have okf: "entry_ok f" by simp
  from fill_tai_keys[OF f] have uf: "utc f = utc e'" by simp
  from "3.prems"(2) uf have lt: "utc f < utc e" by simp
  from "3.prems"(3) have oke: "key_ok e" by simp
  from okf obtain b c where b: "utc f = Finite b" and c: "tai f = Finite c"
    by (auto simp: entry_ok_def key_ok_def split: Duration.splits)
  from oke obtain a where a: "utc e = Finite a"
    by (auto simp: key_ok_def split: Duration.splits)
  from okf b c have fb: "kHalfDay dvd b" "1460 * kHalfDay \<le> b"
    "\<bar>c - b - 1514764840000000000\<bar> * 43200 \<le> b - 1460 * kHalfDay"
    by (auto simp: entry_ok_def key_ok_def)
  from oke a have ea: "kHalfDay dvd a" "a \<le> 5865793 * kHalfDay"
    "smear e = - 1 \<or> smear e = 0 \<or> smear e = 1"
    by (auto simp: key_ok_def)
  from lt a b have ba: "b < a" by simp
  note st = tai_step[OF ea(1) fb(1) ba fb(2) ea(2) fb(3) ea(3)]
  let ?e = "e\<lparr>tai := Finite (c + (a - b) + smear e * 4000000000)\<rparr>"
  have fs': "fs = ?e # f # fs'"
    unfolding fs a b c st(1) ..
  show ?case unfolding fs' using ih a b c by simp
qed

section \<open>The calendar\<close>

lemma div_succ:
  fixes y d :: int
  assumes "0 < d"
  shows "(y + 1) div d = y div d + (if d dvd (y + 1) then 1 else 0)"
proof -
  define q r where "q = y div d" and "r = y mod d"
  have y: "y = d * q + r" and r: "0 \<le> r" "r < d"
    using assms by (simp_all add: q_def r_def)
  show ?thesis
  proof (cases "r = d - 1")
    case True
    then have e: "y + 1 = d * (q + 1) + 0" using y by (simp add: algebra_simps)
    then have "(y + 1) div d = q + 1" using assms by (intro int_div_pos_eq[of _ _ _ 0]) auto
    moreover have "d dvd (y + 1)" by (simp only: e add_0_right dvd_triv_left)
    ultimately show ?thesis by (simp add: q_def)
  next
    case False
    then have e: "y + 1 = d * q + (r + 1)" and r1: "0 \<le> r + 1" "r + 1 < d"
      using y r by simp_all
    from e r1 have "(y + 1) div d = q" by (rule int_div_pos_eq)
    moreover from e r1 have "(y + 1) mod d = r + 1" by (rule int_mod_pos_eq)
    then have "\<not> d dvd (y + 1)" using r by (simp add: dvd_eq_mod_eq_0)
    ultimately show ?thesis by (simp add: q_def)
  qed
qed


lemma div_bounds:
  fixes x :: int
  assumes "0 < d"
  shows "d * (x div d) \<le> x \<and> x < d * (x div d) + d"
proof -
  have "x = d * (x div d) + x mod d" by simp
  moreover have "0 \<le> x mod d" "x mod d < d" using assms by simp_all
  ultimately show ?thesis by linarith
qed

lemma year_length:
  "year_start (y + 1) - year_start y = 365 \<or> year_start (y + 1) - year_start y = 366"
proof -
  have a: "400 dvd (y + 1) \<Longrightarrow> 100 dvd (y + 1)"
    by (rule dvd_trans[of 100 400]) simp_all
  have b: "100 dvd (y + 1) \<Longrightarrow> 4 dvd (y + 1)"
    by (rule dvd_trans[of 4 100]) simp_all
  show ?thesis
    using a b by (auto simp: year_start_def div_succ)
qed

lemma year_start_mono: "y \<le> y' \<Longrightarrow> year_start y \<le> year_start y'"
proof (induction y' rule: int_ge_induct)
  case base
  then show ?case by simp
next
  case (step i)
  then show ?case using year_length[of i] by linarith
qed

lemma year_unique:
  assumes "year_start y \<le> g" "g < year_start (y + 1)" "year_start y' \<le> g" "g < year_start (y' + 1)"
  shows "y = y'"
proof (rule ccontr)
  assume "y \<noteq> y'"
  then consider "y + 1 \<le> y'" | "y' + 1 \<le> y" by linarith
  then show False
  proof cases
    case 1
    from year_start_mono[OF this] assms show False by linarith
  next
    case 2
    from year_start_mono[OF this] assms show False by linarith
  qed
qed

lemma estimate_low:
  fixes g y0 q4 q100 q400 :: int
  assumes "3652425 * y0 \<le> 10000 * g + 20000" "4 * q4 \<le> y0 - 1" "y0 - 1 < 100 * q100 + 100"
    "400 * q400 \<le> y0 - 1"
  shows "365 * (y0 - 1) + q4 - q100 + q400 \<le> g"
proof -
  have "365 * (y0 - 1) = 365 * y0 - 365" by simp
  with assms show ?thesis by linarith
qed

lemma estimate_high:
  fixes g y0 q4 q100 q400 :: int
  assumes "10000 * g + 20000 < 3652425 * y0 + 3652425" "y0 + 1 < 4 * q4 + 4" "100 * q100 \<le> y0 + 1"
    "y0 + 1 < 400 * q400 + 400"
  shows "g < 365 * (y0 + 1) + q4 - q100 + q400"
proof -
  have "365 * (y0 + 1) = 365 * y0 + 365" by simp
  with assms show ?thesis by linarith
qed

lemma year_of_bounds: "year_start (year_of g) \<le> g \<and> g < year_start (year_of g + 1)"
proof -
  define y0 where "y0 = (10000 * g + 20000) div 3652425"
  have e: "3652425 * y0 \<le> 10000 * g + 20000 \<and> 10000 * g + 20000 < 3652425 * y0 + 3652425"
    unfolding y0_def using div_bounds[of 3652425 "10000 * g + 20000"] by simp
  have lo: "year_start (y0 - 1) \<le> g"
  proof -
    have "4 * ((y0 - 1) div 4) \<le> y0 - 1" "y0 - 1 < 100 * ((y0 - 1) div 100) + 100"
      "400 * ((y0 - 1) div 400) \<le> y0 - 1"
      using div_bounds[of 4 "y0 - 1"] div_bounds[of 100 "y0 - 1"] div_bounds[of 400 "y0 - 1"]
      by simp_all
    with e show ?thesis unfolding year_start_def by (intro estimate_low) auto
  qed
  have hi: "g < year_start (y0 + 1)"
  proof -
    have "y0 + 1 < 4 * ((y0 + 1) div 4) + 4" "100 * ((y0 + 1) div 100) \<le> y0 + 1"
      "y0 + 1 < 400 * ((y0 + 1) div 400) + 400"
      using div_bounds[of 4 "y0 + 1"] div_bounds[of 100 "y0 + 1"] div_bounds[of 400 "y0 + 1"]
      by simp_all
    with e show ?thesis unfolding year_start_def by (intro estimate_high) auto
  qed
  show ?thesis
    using lo hi unfolding year_of_def y0_def[symmetric] by (auto simp: Let_def)
qed

lemma year_of_eq:
  assumes "year_start y \<le> g" "g < year_start (y + 1)"
  shows "year_of g = y"
  using year_unique[OF _ _ assms] year_of_bounds[of g] by blast


lemma civil_from_days_alt:
  "civil_from_days z =
     (let g = z + 719468; y' = year_of g; doy = g - year_start y';
          mp = (5 * doy + 2) div 153; d = doy - month_start mp + 1;
          m = (if mp < 10 then mp + 3 else mp - 9)
      in (if m \<le> 2 then y' + 1 else y', m, d))"
  by (simp add: civil_from_days_def year_of_def Let_def)

lemma day_of_year_bounds:
  "0 \<le> g - year_start (year_of g) \<and> g - year_start (year_of g) \<le> 365"
  using year_of_bounds[of g] year_length[of "year_of g"] by linarith

lemma small_int_cases:
  fixes x :: int
  assumes "0 \<le> x" "x \<le> 11"
  shows "x \<in> {0, 1, 2, 3, 4, 5, 6, 7, 8, 9, 10, 11}"
proof -
  have "x \<in> set [0..11]" using assms by simp
  moreover have "[0..11] = [0, 1, 2, 3, 4, 5, 6, 7, 8, 9, 10, 11 :: int]" by code_simp
  ultimately show ?thesis by simp
qed

lemma month_index_cases:
  assumes "0 \<le> doy" "doy \<le> 365"
  shows "(5 * doy + 2) div 153 \<in> {0, 1, 2, 3, 4, 5, 6, 7, 8, 9, 10, 11 :: int}"
proof -
  have "0 \<le> (5 * doy + 2) div 153" using assms by (simp add: pos_imp_zdiv_nonneg_iff)
  moreover have "(5 * doy + 2) div 153 \<le> (5 * 365 + 2) div 153"
    using assms by (intro zdiv_mono1) auto
  ultimately show ?thesis by (intro small_int_cases) simp_all
qed

lemma month_boundary:
  assumes "civil_from_days z = (y, m, 1)"
  shows "civil_from_days (z + 1) = (y, m, 2)"
    and "\<exists>y0 m0 d0. civil_from_days (z - 1) = (y0, m0, d0) \<and> 12 * (y - y0) + (m - m0) = 1"
    and "days_from_civil y m 3 = z + 2"
    and "1 \<le> m \<and> m \<le> 12"
proof -
  define g where "g = z + 719468"
  define Y where "Y = year_of g"
  define doy where "doy = g - year_start Y"
  define mp where "mp = (5 * doy + 2) div 153"
  have b: "0 \<le> doy" "doy \<le> 365"
    using day_of_year_bounds[of g] by (simp_all add: doy_def Y_def)
  have yb: "year_start Y \<le> g" "g < year_start (Y + 1)"
    using year_of_bounds[of g] by (simp_all add: Y_def)
  have c: "mp \<in> {0, 1, 2, 3, 4, 5, 6, 7, 8, 9, 10, 11}"
    unfolding mp_def using b by (rule month_index_cases)
  have eq: "civil_from_days z =
      (if (if mp < 10 then mp + 3 else mp - 9) \<le> 2 then Y + 1 else Y,
       if mp < 10 then mp + 3 else mp - 9, doy - month_start mp + 1)"
    unfolding civil_from_days_alt Let_def mp_def doy_def Y_def g_def by (rule refl)
  from assms eq have m: "m = (if mp < 10 then mp + 3 else mp - 9)"
    by simp
  from assms eq have y: "y = (if m \<le> 2 then Y + 1 else Y)"
    by (auto split: if_splits)
  from assms eq have "doy - month_start mp + 1 = 1"
    by simp
  then have d: "doy = month_start mp"
    by simp
  have gd: "g = year_start Y + month_start mp" using d by (simp add: doy_def)
  have yl: "year_start (Y + 1) - year_start Y = 365 \<or> year_start (Y + 1) - year_start Y = 366"
    by (rule year_length)
  have msb: "0 \<le> month_start mp \<and> month_start mp \<le> 337"
    using c by (elim insertE emptyE; simp add: month_start_def)
  show "1 \<le> m \<and> m \<le> 12"
    using c m by (elim insertE emptyE; simp)
  have my: "(if m \<le> 2 then y - 1 else y) = Y \<and> (m + 9) mod 12 = mp"
    using c m y by (elim insertE emptyE; simp)
  show "days_from_civil y m 3 = z + 2"
    unfolding days_from_civil_def Let_def using my gd by (simp add: g_def)
  have yn: "year_of (g + 1) = Y"
  proof (rule year_of_eq)
    show "year_start Y \<le> g + 1" using gd msb by linarith
    show "g + 1 < year_start (Y + 1)" using gd msb yl by linarith
  qed
  have zn: "z + 1 + 719468 = g + 1" by (simp add: g_def)
  have dn: "g + 1 - year_start Y = month_start mp + 1" using gd by simp
  have mn: "(5 * (month_start mp + 1) + 2) div 153 = mp"
    using c by (elim insertE emptyE; simp add: month_start_def)
  show "civil_from_days (z + 1) = (y, m, 2)"
    unfolding civil_from_days_alt Let_def zn yn dn mn using m y by simp
  show "\<exists>y0 m0 d0. civil_from_days (z - 1) = (y0, m0, d0) \<and> 12 * (y - y0) + (m - m0) = 1"
  proof (cases "mp = 0")
    case True
    have py: "year_start Y - year_start (Y - 1) = 365 \<or> year_start Y - year_start (Y - 1) = 366"
      using year_length[of "Y - 1"] by simp
    have g0: "g = year_start Y" using gd True by (simp add: month_start_def)
    have yo: "year_of (g - 1) = Y - 1"
    proof (rule year_of_eq)
      show "year_start (Y - 1) \<le> g - 1" using py g0 by linarith
      show "g - 1 < year_start (Y - 1 + 1)" using g0 by simp
    qed
    have zz: "z - 1 + 719468 = g - 1" by (simp add: g_def)
    define r where "r = g - 1 - year_start (Y - 1)"
    have dd: "r = 364 \<or> r = 365"
      unfolding r_def using py g0 by linarith
    have ce: "civil_from_days (z - 1)
        = (if (if (5 * r + 2) div 153 < 10 then (5 * r + 2) div 153 + 3 else (5 * r + 2) div 153 - 9) \<le> 2
           then Y - 1 + 1 else Y - 1,
           if (5 * r + 2) div 153 < 10 then (5 * r + 2) div 153 + 3 else (5 * r + 2) div 153 - 9,
           r - month_start ((5 * r + 2) div 153) + 1)"
      unfolding civil_from_days_alt Let_def zz yo r_def by (rule refl)
    from dd have "civil_from_days (z - 1) = (Y, 2, r - 337 + 1)"
      unfolding ce by (elim disjE; simp add: month_start_def)
    moreover have "m = 3 \<and> y = Y" using True m y by simp
    ultimately show ?thesis by simp
  next
    case False
    have zz: "z - 1 + 719468 = g - 1" by (simp add: g_def)
    have ms1: "1 \<le> month_start mp" using c False by (elim insertE emptyE; simp add: month_start_def)
    have yo: "year_of (g - 1) = Y"
    proof (rule year_of_eq)
      show "year_start Y \<le> g - 1" using gd ms1 by linarith
      show "g - 1 < year_start (Y + 1)" using gd msb yl by linarith
    qed
    have dp: "g - 1 - year_start Y = month_start mp - 1" using gd by simp
    have mq: "(5 * (month_start mp - 1) + 2) div 153 = mp - 1"
      using c False by (elim insertE emptyE; simp add: month_start_def)
    have ce: "civil_from_days (z - 1)
        = (if (if mp - 1 < 10 then mp - 1 + 3 else mp - 1 - 9) \<le> 2 then Y + 1 else Y,
           if mp - 1 < 10 then mp - 1 + 3 else mp - 1 - 9,
           month_start mp - 1 - month_start (mp - 1) + 1)"
      unfolding civil_from_days_alt Let_def zz yo dp mq by (rule refl)
    have "12 * (y - (if (if mp - 1 < 10 then mp - 1 + 3 else mp - 1 - 9) \<le> 2 then Y + 1 else Y))
          + (m - (if mp - 1 < 10 then mp - 1 + 3 else mp - 1 - 9)) = 1"
      using c False m y by (elim insertE emptyE; simp)
    with ce show ?thesis by blast
  qed
qed

subsection \<open>Lookup in a constructed table\<close>

lemma noon_ticks_mono: "noon_ticks j < noon_ticks j' \<longleftrightarrow> j < j'"
  by (simp add: noon_ticks_def)

lemma smear_entry_window:
  assumes U: "unsorted_entries proto = Some es"
    and R: "kMinJdn \<le> end_jdn proto" "end_jdn proto \<le> kMaxJdn"
    and S: "sorted_wrt (\<lambda>a b. utc b < utc a) ss" and M: "set ss = set es"
    and i: "Suc i < length ss" "smear (ss ! i) \<noteq> 0"
  shows "\<exists>j. utc (ss ! i) = Finite (noon_ticks (j + 1)) \<and> utc (ss ! Suc i) = Finite (noon_ticks j)"
proof -
  from U have r: "all_in_range proto"
    and es: "es = front_entry proto #
                 concat (map (leap_entries (- 1)) (rev (negative_leaps proto))) @
                 concat (map (leap_entries 1) (rev (positive_leaps proto))) @ [back_entry]"
    by (auto simp: unsorted_entries_eq split: if_splits)
  have J: "JdnToTime j = Finite (noon_ticks j)" if "kMinJdn \<le> j" "j \<le> kMaxJdn + 1" for j
    using that by (intro JdnToTime_Finite) (auto simp: kMinJdn_def kMaxJdn_def)
  have leap: "(smear e \<noteq> 0 \<longrightarrow> utc e = Finite (noon_ticks (j + 1)))
      \<and> (smear e = 0 \<longrightarrow> utc e = Finite (noon_ticks j))
      \<and> \<lparr>utc = Finite (noon_ticks j), tai = TaiEpoch, smear = 0\<rparr> \<in> set (leap_entries sm j)"
    if "e \<in> set (leap_entries sm j)" "kMinJdn \<le> j" "j \<le> kMaxJdn" "sm \<noteq> 0" for e sm j
    using that J[of j] J[of "j + 1"] by (auto simp: leap_entries_def)
  have inr: "kMinJdn \<le> j \<and> j \<le> kMaxJdn"
    if "j \<in> set (negative_leaps proto) \<union> set (positive_leaps proto)" for j
    using r that by (auto simp: all_in_range_def list_all_iff)
  have sub: "set (leap_entries sm j) \<subseteq> set es"
    if "(sm = - 1 \<and> j \<in> set (negative_leaps proto)) \<or> (sm = 1 \<and> j \<in> set (positive_leaps proto))"
    for sm j
    using that unfolding es by auto
  have src': "e = front_entry proto \<or> e = back_entry
      \<or> (\<exists>sm j. kMinJdn \<le> j \<and> j \<le> kMaxJdn \<and> sm \<noteq> 0 \<and> e \<in> set (leap_entries sm j)
             \<and> set (leap_entries sm j) \<subseteq> set es)" if "e \<in> set es" for e
  proof -
    from that consider "e = front_entry proto" | "e = back_entry"
      | j where "j \<in> set (negative_leaps proto)" "e \<in> set (leap_entries (- 1) j)"
      | j where "j \<in> set (positive_leaps proto)" "e \<in> set (leap_entries 1 j)"
      unfolding es by auto
    then show ?thesis
    proof cases
      case 1
      then show ?thesis by simp
    next
      case 2
      then show ?thesis by simp
    next
      case 3
      with inr[of j] sub[of "- 1" j] show ?thesis
        by (intro disjI2 exI[of _ "- 1"] exI[of _ j]) simp
    next
      case 4
      with inr[of j] sub[of 1 j] show ?thesis
        by (intro disjI2 exI[of _ 1] exI[of _ j]) simp
    qed
  qed
  have noon: "e = back_entry \<or> (\<exists>j. utc e = Finite (noon_ticks j))" if "e \<in> set es" for e
  proof -
    from src'[OF that] consider "e = front_entry proto" | "e = back_entry"
      | sm j where "kMinJdn \<le> j" "j \<le> kMaxJdn" "e \<in> set (leap_entries sm j)" "sm \<noteq> 0"
      by blast
    then show ?thesis
    proof cases
      case 1
      then show ?thesis using J[of "end_jdn proto + 1"] R by (auto simp: front_entry_def)
    next
      case 2
      then show ?thesis by simp
    next
      case 3
      from leap[OF 3(3,1,2,4)] show ?thesis by (cases "smear e = 0") auto
    qed
  qed
  define x where "x = ss ! i"
  have "ss ! i \<in> set ss" using i(1) by (intro nth_mem) simp
  then have xs: "x \<in> set es" by (simp only: M x_def)
  have sx: "smear x \<noteq> 0" using i(2) by (simp add: x_def)
  from src'[OF xs] sx obtain sm j where j: "kMinJdn \<le> j" "j \<le> kMaxJdn"
    "x \<in> set (leap_entries sm j)" "set (leap_entries sm j) \<subseteq> set es" "sm \<noteq> 0"
    by (auto simp: front_entry_def back_entry_def)
  from leap[OF j(3,1,2,5)] sx have ux: "utc x = Finite (noon_ticks (j + 1))"
    and "\<lparr>utc = Finite (noon_ticks j), tai = TaiEpoch, smear = 0\<rparr> \<in> set (leap_entries sm j)"
    by auto
  with j(4) M have "\<lparr>utc = Finite (noon_ticks j), tai = TaiEpoch, smear = 0\<rparr> \<in> set ss" by auto
  then obtain k where k: "k < length ss" "ss ! k = \<lparr>utc = Finite (noon_ticks j), tai = TaiEpoch, smear = 0\<rparr>"
    by (auto simp: in_set_conv_nth)
  then have uy: "utc (ss ! k) = Finite (noon_ticks j)" by simp
  note nth = sorted_wrt_nth_less[OF S]
  have ik: "i < k"
  proof (rule ccontr)
    assume "\<not> i < k"
    then consider "k = i" | "k < i" by linarith
    then show False
    proof cases
      case 1
      with uy ux show ?thesis by (simp add: x_def noon_ticks_def)
    next
      case 2
      from nth[OF 2] i(1) have "utc (ss ! i) < utc (ss ! k)" by simp
      with uy ux show ?thesis by (simp add: x_def noon_ticks_def)
    qed
  qed
  have "utc (ss ! Suc i) = Finite (noon_ticks j)"
  proof (cases "k = Suc i")
    case True
    with uy show ?thesis by simp
  next
    case False
    with ik have "Suc i < k" by simp
    from nth[OF this k(1)] uy have lo: "Finite (noon_ticks j) < utc (ss ! Suc i)" by simp
    from nth[of i "Suc i"] i(1) ux have hi: "utc (ss ! Suc i) < Finite (noon_ticks (j + 1))"
      by (simp add: x_def)
    have "ss ! Suc i \<in> set ss" using i(1) by (rule nth_mem)
    then have "ss ! Suc i \<in> set es" by (simp only: M)
    from noon[OF this] show ?thesis
    proof
      assume "ss ! Suc i = back_entry"
      with lo j(1) show ?thesis
        by (simp add: back_entry_def ModernUtcEpoch_def FromUnixSeconds_def kTicksPerSecond_def
            noon_ticks_def kMinJdn_def)
    next
      assume "\<exists>j'. utc (ss ! Suc i) = Finite (noon_ticks j')"
      then obtain j' where "utc (ss ! Suc i) = Finite (noon_ticks j')" by blast
      with lo hi have "j < j'" "j' < j + 1" by (simp_all add: noon_ticks_mono)
      then show ?thesis by simp
    qed
  qed
  with ux show ?thesis by (auto simp: x_def)
qed

lemma constructed_table:
  assumes N: "NewLeapTableFromProto proto = Some lt"
  shows "2 \<le> length lt"
    and "\<forall>e \<in> set lt. entry_ok e"
    and "sorted_wrt (\<lambda>a b. utc b < utc a) lt"
    and "sorted_wrt (\<lambda>a b. tai b < tai a) lt"
    and "last lt = back_entry"
    and "utc (hd lt) = JdnToTime (end_jdn proto + 1)"
    and "smear (hd lt) = 0"
    and "\<forall>i. Suc i < length lt \<longrightarrow>
           (\<exists>a b c. utc (lt ! i) = Finite a \<and> utc (lt ! Suc i) = Finite b \<and> tai (lt ! Suc i) = Finite c
              \<and> tai (lt ! i) = Finite (c + (a - b) + smear (lt ! i) * 4000000000))"
    and "\<forall>i. Suc i < length lt \<longrightarrow> smear (lt ! i) \<noteq> 0 \<longrightarrow>
           (\<exists>j. utc (lt ! i) = Finite (noon_ticks (j + 1)) \<and> utc (lt ! Suc i) = Finite (noon_ticks j))"
proof -
  let ?X = "JdnToTime (end_jdn proto + 1)"
  from N have R: "kMinJdn \<le> end_jdn proto" "end_jdn proto \<le> kMaxJdn"
    by (auto simp: NewLeapTableFromProto_def split: if_splits)
  from N obtain es where U: "unsorted_entries proto = Some es"
    and V: "validate ?X (sort_desc es) = Some lt"
    by (auto simp: NewLeapTableFromProto_def split: if_splits option.splits)
  let ?ss = "sort_desc es"
  from U have es: "es = front_entry proto #
                 concat (map (leap_entries (- 1)) (rev (negative_leaps proto))) @
                 concat (map (leap_entries 1) (rev (positive_leaps proto))) @ [back_entry]"
    by (auto simp: unsorted_entries_eq split: if_splits)
  have len: "2 \<le> length es" unfolding es by simp
  have "size (mset ?ss) = size (mset es)" by (simp only: mset_sort_desc)
  then have lss: "length ?ss = length es" by simp
  with len have ne: "?ss \<noteq> []" by auto
  from V have F: "fill_tai ?ss = Some lt" by (auto simp: validate_def split: if_splits)
  from fill_tai_keys[OF F] have ku: "map utc lt = map utc ?ss" by simp
  then have "length lt = length ?ss" by (metis length_map)
  with lss len show "2 \<le> length lt" by simp
  have S: "sorted_wrt (\<lambda>a b. utc b < utc a) ?ss"
    by (rule validate_strict[OF V sorted_sort_desc])
  have "sorted_wrt (\<lambda>a b. b < a) (map utc ?ss)" using S by (simp add: sorted_wrt_map)
  then have "sorted_wrt (\<lambda>a b. b < a) (map utc lt)" by (simp only: ku)
  then show "sorted_wrt (\<lambda>a b. utc b < utc a) lt" by (simp add: sorted_wrt_map)
  have K: "\<forall>e \<in> set ?ss. key_ok e"
    using key_ok_unsorted[OF U R] mset_eq_setD[OF mset_sort_desc[of es]] by simp
  have B: "last ?ss = back_entry"
  proof (rule ccontr)
    assume n: "last ?ss \<noteq> back_entry"
    have "back_entry \<in> set ?ss"
      using mset_eq_setD[OF mset_sort_desc[of es]] unfolding es by simp
    then have "back_entry \<in> set (butlast ?ss)"
      using n ne by (metis append_butlast_last_id in_set_conv_decomp_first
          last_snoc rotate1.simps(2) set_ConsD set_rotate1)
    moreover have "?ss = butlast ?ss @ [last ?ss]" using ne by simp
    ultimately have "utc (last ?ss) < utc back_entry"
      using S by (metis last_in_set list.set_intros(1) sorted_wrt_append)
    moreover have "key_ok (last ?ss)" using K ne by simp
    ultimately show False
      by (auto simp: key_ok_def back_entry_def ModernUtcEpoch_def FromUnixSeconds_def
          kTicksPerSecond_def kHalfDay_def split: Duration.splits)
  qed
  from fill_tai_inv[OF F S K ne B]
  show "\<forall>e \<in> set lt. entry_ok e" "sorted_wrt (\<lambda>a b. tai b < tai a) lt" "last lt = back_entry"
    by auto
  from validate_hd[OF V ne]
  show "utc (hd lt) = JdnToTime (end_jdn proto + 1)" "smear (hd lt) = 0" by auto
  from fill_tai_keys[OF F] have ks: "map smear lt = map smear ?ss" by simp
  from ku have ll: "length lt = length ?ss" by (metis length_map)
  have M: "set ?ss = set es" using mset_eq_setD[OF mset_sort_desc[of es]] .
  have u: "utc (lt ! k) = utc (?ss ! k)" "smear (lt ! k) = smear (?ss ! k)" if "k < length lt" for k
  proof -
    from that have "map utc lt ! k = utc (lt ! k)" "map smear lt ! k = smear (lt ! k)" by simp_all
    moreover from that ll have "map utc ?ss ! k = utc (?ss ! k)" "map smear ?ss ! k = smear (?ss ! k)"
      by simp_all
    ultimately show "utc (lt ! k) = utc (?ss ! k)" "smear (lt ! k) = smear (?ss ! k)"
      using ku ks by simp_all
  qed
  note st = fill_tai_steps[OF F S K ne B]
  show "\<forall>i. Suc i < length lt \<longrightarrow>
           (\<exists>a b c. utc (lt ! i) = Finite a \<and> utc (lt ! Suc i) = Finite b \<and> tai (lt ! Suc i) = Finite c
              \<and> tai (lt ! i) = Finite (c + (a - b) + smear (lt ! i) * 4000000000))"
  proof (intro allI impI)
    fix i assume "Suc i < length lt"
    from successively_nth[OF st this]
    show "\<exists>a b c. utc (lt ! i) = Finite a \<and> utc (lt ! Suc i) = Finite b \<and> tai (lt ! Suc i) = Finite c
              \<and> tai (lt ! i) = Finite (c + (a - b) + smear (lt ! i) * 4000000000)" .
  qed
  show "\<forall>i. Suc i < length lt \<longrightarrow> smear (lt ! i) \<noteq> 0 \<longrightarrow>
           (\<exists>j. utc (lt ! i) = Finite (noon_ticks (j + 1)) \<and> utc (lt ! Suc i) = Finite (noon_ticks j))"
  proof (intro allI impI)
    fix i assume i: "Suc i < length lt" and s: "smear (lt ! i) \<noteq> 0"
    from i ll have i': "Suc i < length ?ss" by simp
    from s i have "smear (?ss ! i) \<noteq> 0" by (simp add: u)
    from smear_entry_window[OF U R S M i' this] i
    show "\<exists>j. utc (lt ! i) = Finite (noon_ticks (j + 1)) \<and> utc (lt ! Suc i) = Finite (noon_ticks j)"
      by (simp add: u)
  qed
qed


lemma seek_None:
  assumes "\<forall>b \<in> set (tl es). \<not> dle (key b) x"
  shows "seek key x es = None"
  using assms by (induction key x es rule: seek.induct) auto

lemma seek_Some:
  assumes "2 \<le> length es" "dle (key (last es)) x"
  shows "\<exists>i. Suc i < length es \<and> seek key x es = Some (es ! i) \<and> dle (key (es ! Suc i)) x
             \<and> (0 < i \<longrightarrow> \<not> dle (key (es ! i)) x)"
  using assms
proof (induction key x es rule: seek.induct)
  case (1 key x a b es)
  show ?case
  proof (cases "dle (key b) x")
    case True
    then show ?thesis by (intro exI[of _ 0]) simp
  next
    case False
    with "1.prems" have "es \<noteq> []" by auto
    then have "2 \<le> length (b # es)" "dle (key (last (b # es))) x"
      using "1.prems" by (auto simp: Suc_le_eq)
    from "1.IH"[OF False this] obtain i where i: "Suc i < length (b # es)"
      "seek key x (b # es) = Some ((b # es) ! i)" "dle (key ((b # es) ! Suc i)) x"
      "0 < i \<longrightarrow> \<not> dle (key ((b # es) ! i)) x"
      by blast
    show ?thesis
    proof (intro exI[of _ "Suc i"] conjI impI)
      show "Suc (Suc i) < length (a # b # es)" using i(1) by simp
      show "seek key x (a # b # es) = Some ((a # b # es) ! Suc i)" using False i(2) by simp
      show "dle (key ((a # b # es) ! Suc (Suc i))) x" using i(3) by simp
      show "\<not> dle (key ((a # b # es) ! Suc i)) x" using i(4) False by (cases i) auto
    qed
  qed
qed simp_all

lemma seek_eq:
  assumes "sorted_wrt (\<lambda>a b. key b < key a) es" "Suc i < length es"
    and "key (es ! Suc i) \<le> x" "0 < i \<longrightarrow> x < key (es ! i)"
  shows "seek key x es = Some (es ! i)"
  using assms
proof (induction key x es arbitrary: i rule: seek.induct)
  case (1 key x a b es)
  show ?case
  proof (cases i)
    case 0
    with "1.prems"(3) show ?thesis by (simp add: dle_iff)
  next
    case (Suc j)
    with "1.prems"(4) have x: "x < key ((b # es) ! j)" by simp
    have "key ((b # es) ! j) \<le> key b"
    proof (cases j)
      case 0
      then show ?thesis by simp
    next
      case (Suc k)
      with "1.prems"(1,2) \<open>i = Suc j\<close> show ?thesis by (auto simp: less_imp_le)
    qed
    with x have nb: "\<not> dle (key b) x" by (simp add: dle_iff)
    have "seek key x (b # es) = Some ((b # es) ! j)"
    proof (rule "1.IH"[OF nb])
      show "sorted_wrt (\<lambda>a b. key b < key a) (b # es)" using "1.prems"(1) by simp
      show "Suc j < length (b # es)" using "1.prems"(2) Suc by simp
      show "key ((b # es) ! Suc j) \<le> x" using "1.prems"(3) Suc by simp
      show "0 < j \<longrightarrow> x < key ((b # es) ! j)" using x by blast
    qed
    with nb Suc show ?thesis by simp
  qed
qed simp_all

lemma entry_ok_Finite:
  assumes "entry_ok e"
  obtains a c where "utc e = Finite a" "tai e = Finite c" "0 \<le> a" "a \<le> 1100000000000000000000"
    "0 \<le> c" "c \<le> 1100000000000000000000"
proof -
  from assms obtain a c where e: "utc e = Finite a" "tai e = Finite c"
    by (auto simp: entry_ok_def key_ok_def split: Duration.splits)
  from assms e have b: "252288000000000000 \<le> a" "a \<le> 1013609030400000000000"
    and d: "\<bar>c - a - 1514764840000000000\<bar> * 43200 \<le> a - 252288000000000000"
    by (auto simp: entry_ok_def key_ok_def kHalfDay_def)
  define X where "X = \<bar>c - a - 1514764840000000000\<bar>"
  have "0 \<le> X" by (simp add: X_def)
  moreover from d have "X * 43200 \<le> a - 252288000000000000" by (simp add: X_def)
  ultimately have "X \<le> 24000000000000000" using b by linarith
  then have "\<bar>c - a - 1514764840000000000\<bar> \<le> 24000000000000000" by (simp add: X_def)
  with b have "0 \<le> c" "c \<le> 1100000000000000000000" by linarith+
  with e b that show ?thesis by auto
qed


lemma representable_small:
  "- 10000000000000000000000 \<le> n \<Longrightarrow> n \<le> 10000000000000000000000 \<Longrightarrow> representable n"
  by (simp add: representable_def kint64max_def kint64min_def kTicksPerSecond_def)

lemma tai_last_least:
  assumes "sorted_wrt (\<lambda>a b. tai b < tai a) lt" "b \<in> set lt"
  shows "tai (last lt) \<le> tai b"
proof (cases "b = last lt")
  case True
  then show ?thesis by simp
next
  case False
  from assms(2) have ne: "lt \<noteq> []" by auto
  then have d: "lt = butlast lt @ [last lt]" by simp
  with False assms(2) have "b \<in> set (butlast lt)"
    by (metis Un_iff empty_iff empty_set set_ConsD set_append)
  with assms(1) d have "tai (last lt) < tai b"
    by (metis list.set_intros(1) sorted_wrt_append)
  then show ?thesis by simp
qed

lemma Smear_cases:
  assumes N: "NewLeapTableFromProto proto = Some lt"
  shows "dless (Finite n) ZeroDuration \<Longrightarrow> Smear ts lt (Finite n) = None"
    and "\<not> dless (Finite n) ZeroDuration \<Longrightarrow> dless (ToTaiTime ts (Finite n)) (tai (last lt))
         \<Longrightarrow> Smear ts lt (Finite n) = None"
    and "\<not> dless (Finite n) ZeroDuration \<Longrightarrow> dle (tai (last lt)) (ToTaiTime ts (Finite n))
         \<Longrightarrow> dle (ToTaiTime ts (Finite n)) (tai (hd lt))
         \<Longrightarrow> \<exists>i. Suc i < length lt
               \<and> dle (tai (lt ! Suc i)) (ToTaiTime ts (Finite n))
               \<and> dle (ToTaiTime ts (Finite n)) (tai (lt ! i))
               \<and> Smear ts lt (Finite n) = Some (Interpolate_tai (lt ! i) (ToTaiTime ts (Finite n)))"
proof -
  note T = constructed_table[OF N]
  let ?ta = "ToTaiTime ts (Finite n)"
  show "Smear ts lt (Finite n) = None" if "dless (Finite n) ZeroDuration"
    using that by (simp add: Smear_def FutureProofSmear_def)
  show "Smear ts lt (Finite n) = None"
    if a: "\<not> dless (Finite n) ZeroDuration" and b: "dless ?ta (tai (last lt))"
  proof -
    from T(1) have ne: "lt \<noteq> []" by auto
    then have "hd lt \<in> set lt" by simp
    from tai_last_least[OF T(4) this] b have "dle ?ta (tai (hd lt))"
      by (simp add: dless_iff dle_iff)
    moreover have "seek tai ?ta lt = None"
    proof (rule seek_None, rule ballI)
      fix e assume "e \<in> set (tl lt)"
      then have "e \<in> set lt" by (rule list.set_sel(2)[OF ne])
      from tai_last_least[OF T(4) this] b show "\<not> dle (tai e) ?ta"
        by (simp add: dless_iff dle_iff)
    qed
    ultimately show ?thesis
      using a by (simp add: Smear_def FutureProofSmear_def Let_def)
  qed
  show "\<exists>i. Suc i < length lt \<and> dle (tai (lt ! Suc i)) ?ta \<and> dle ?ta (tai (lt ! i))
            \<and> Smear ts lt (Finite n) = Some (Interpolate_tai (lt ! i) ?ta)"
    if a: "\<not> dless (Finite n) ZeroDuration" and b: "dle (tai (last lt)) ?ta"
      and c: "dle ?ta (tai (hd lt))"
  proof -
    from seek_Some[where es=lt and key=tai and x="?ta", OF T(1) b] obtain i where i: "Suc i < length lt"
      "seek tai ?ta lt = Some (lt ! i)" "dle (tai (lt ! Suc i)) ?ta"
      "0 < i \<longrightarrow> \<not> dle (tai (lt ! i)) ?ta"
      by blast
    have "dle ?ta (tai (lt ! i))"
    proof (cases i)
      case 0
      with c T(1) show ?thesis by (cases lt) auto
    next
      case (Suc j)
      with i(4) show ?thesis by (simp add: dle_iff)
    qed
    moreover have "Smear ts lt (Finite n) = Some (Interpolate_tai (lt ! i) ?ta)"
      using a c i(2) by (simp add: Smear_def FutureProofSmear_def Let_def)
    ultimately show ?thesis using i(1,3) by blast
  qed
qed

lemma tai_back_entry: "tai back_entry = TaiModernUtcEpoch"
  by (simp add: back_entry_def)

subsection \<open>Two days after the expiration\<close>

lemma civil_year_clamped:
  assumes "0 \<le> z" "z \<le> 3000000" "civil_from_days z = (y, m, d)"
  shows "clamp_tm_year y = y - 1900"
proof -
  define g where "g = z + 719468"
  define Y where "Y = year_of g"
  have yb: "year_start Y \<le> g" "g < year_start (Y + 1)"
    using year_of_bounds[of g] by (simp_all add: Y_def)
  have "0 \<le> Y"
  proof (rule ccontr)
    assume "\<not> 0 \<le> Y"
    then have "Y + 1 \<le> 0" by simp
    from year_start_mono[OF this] have "year_start (Y + 1) \<le> 0" by (simp add: year_start_def)
    with yb(2) assms(1) show False by (simp add: g_def)
  qed
  moreover have "Y < 20000"
  proof (rule ccontr)
    assume "\<not> Y < 20000"
    then have "20000 \<le> Y" by simp
    from year_start_mono[OF this] have "7304850 \<le> year_start Y" by (simp add: year_start_def)
    with yb(1) assms(2) show False by (simp add: g_def)
  qed
  moreover have "y = Y \<or> y = Y + 1"
    using assms(3) unfolding civil_from_days_alt Let_def g_def[symmetric] Y_def[symmetric]
    by (auto split: if_splits)
  ultimately show ?thesis by (auto simp: clamp_tm_year_def)
qed

lemma two_days_after_expiration:
  assumes N: "NewLeapTableFromProto proto = Some lt"
  shows "Unsmear lt (expiration lt) = Some (tai (hd lt))"
    and "FutureProofUnsmear lt (dplus (expiration lt) (Hours 48)) =
         (dminus (dplus (tai (hd lt)) (Hours 48)) (Seconds 1),
          dplus (dplus (tai (hd lt)) (Hours 48)) (Seconds 1))"
proof -
  note T = constructed_table[OF N]
  define j where "j = end_jdn proto"
  from N have R: "kMinJdn \<le> j" "j \<le> kMaxJdn"
    and M: "tm_mday (ToTM (dplus (JdnToTime (j + 1)) (Hours 24))) = 1"
    by (auto simp: j_def NewLeapTableFromProto_def split: if_splits)
  then have r: "2441347 \<le> j" "j \<le> 5373483" by (simp_all add: kMinJdn_def kMaxJdn_def)
  from T(1) obtain a b rest where lt: "lt = a # b # rest"
    by (cases lt; cases "tl lt") auto
  define A where "A = noon_ticks (j + 1)"
  define D where "D = (345600000000000::int)"
  have Ab: "0 \<le> A" "A \<le> 1100000000000000000000"
    using r by (simp_all add: A_def noon_ticks_def)
  have n2: "noon_ticks (j + 2) = A + D" and n3: "noon_ticks (j + 3) = A + 2 * D"
    and n4: "noon_ticks (j + 4) = A + 3 * D"
    by (simp_all add: A_def D_def noon_ticks_def)
  have "JdnToTime (j + 1) = Finite (noon_ticks (j + 1))"
    using r by (intro JdnToTime_Finite) simp_all
  with T(6) have ua: "utc a = Finite A" by (simp add: lt j_def A_def)
  have sa: "smear a = 0" using T(7) by (simp add: lt)
  have "entry_ok a" using T(2) by (simp add: lt)
  then obtain c where ta: "tai a = Finite c" and cb: "0 \<le> c" "c \<le> 1100000000000000000000"
    by (rule entry_ok_Finite) auto
  have ub: "utc b < utc a" using T(3) by (simp add: lt)
  have H48: "Hours 48 = Finite (2 * D)" and H24: "Hours 24 = Finite D"
    and S1: "Seconds 1 = Finite 4000000000"
    by (simp_all add: Hours_def Seconds_def kint64max_def kTicksPerSecond_def D_def)
  have rep: "representable n" if "- 5000000000000000000000 \<le> n" "n \<le> 5000000000000000000000" for n
    using that by (intro representable_small) simp_all
  have I0: "Interpolate_utc a (Finite A) = Finite c"
    using cb by (simp add: Interpolate_utc_def ua ta sa rep)
  have sk: "seek utc (Finite A) (a # b # rest) = Some a"
  proof -
    from ub have "utc b \<le> Finite A" by (simp add: ua)
    then show ?thesis by (simp add: dle_iff)
  qed
  have le: "dle (Finite A) (utc a)" by (simp add: ua dle_iff)
  show "Unsmear lt (expiration lt) = Some (tai (hd lt))"
    unfolding Unsmear_def FutureProofUnsmear_def expiration_def lt
    using sk le I0 by (simp add: ua ta)
  define z where "z = j + 2 - 2440588"
  obtain y m d where cz: "civil_from_days z = (y, m, d)" by (cases "civil_from_days z") auto
  have "dplus (JdnToTime (j + 1)) (Hours 24) = JdnToTime (j + 1 + 1)"
    using r by (intro JdnToTime_plus_day) simp_all
  moreover have "JdnToTime (j + 2) = Finite (noon_ticks (j + 2))"
    using r by (intro JdnToTime_Finite) simp_all
  ultimately have "tm_mday (ToTM (Finite (noon_ticks (j + 2)))) = 1"
    using M by (simp add: add.assoc)
  then have "d = 1" by (simp only: ToTM_noon z_def[symmetric] cz) simp
  with cz have cz1: "civil_from_days z = (y, m, 1)" by simp
  note mb = month_boundary[OF cz1]
  from mb(2) obtain y0 m0 d0 where c0: "civil_from_days (z - 1) = (y0, m0, d0)"
    and mo: "12 * (y - y0) + (m - m0) = 1"
    by blast
  have zr: "0 \<le> z - 1" "z - 1 \<le> 3000000" "0 \<le> z + 1" "z + 1 \<le> 3000000"
    using r by (simp_all add: z_def)
  have cy: "clamp_tm_year y = y - 1900"
    by (rule civil_year_clamped[OF zr(3) zr(4) mb(1)])
  have cy0: "clamp_tm_year y0 = y0 - 1900"
    by (rule civil_year_clamped[OF zr(1) zr(2) c0])
  have z1: "j + 1 - 2440588 = z - 1" and z3: "j + 3 - 2440588 = z + 1"
    by (simp_all add: z_def)
  have te: "ToTM (Finite A) =
      \<lparr>tm_year = y0 - 1900, tm_mon = m0 - 1, tm_mday = d0, tm_hour = 12\<rparr>"
    unfolding A_def by (simp only: ToTM_noon z1 c0) (simp add: cy0)
  have tt: "ToTM (Finite (A + 2 * D)) =
      \<lparr>tm_year = y - 1900, tm_mon = m - 1, tm_mday = 2, tm_hour = 12\<rparr>"
    unfolding n3[symmetric] by (simp only: ToTM_noon z3 mb(1)) (simp add: cy)
  have nj: "\<not> IsJustBeforeMonthEnd
      \<lparr>tm_year = y - 1900, tm_mon = m - 1, tm_mday = 2, tm_hour = 12\<rparr>"
    by (simp add: IsJustBeforeMonthEnd_def)
  have "((z + 2) * 86400 + 12 * 3600 + 0 * 60 + 0) * kTicksPerSecond = noon_ticks (j + 4)"
    by (simp add: z_def noon_ticks_def kTicksPerSecond_def)
  then have fd: "FromDateTime y m 3 12 0 0 = Finite (A + 3 * D)"
    using Ab by (simp only: FromDateTime_def mb(3) Let_def n4) (simp add: rep D_def)
  have leaps: "(y - 1900 - (y0 - 1900)) * 12 + (m - 1 - (m0 - 1)) = 1"
    using mo by simp
  have adv: "Advance a (Finite (A + 2 * D)) =
      (\<lparr>utc = Finite (A + 3 * D), tai = Finite (c + 3 * D - 4000000000), smear = 0\<rparr>,
       \<lparr>utc = Finite (A + 3 * D), tai = Finite (c + 3 * D + 4000000000), smear = 0\<rparr>)"
    unfolding Advance_def ua te tt Let_def tm.simps leaps
    using nj Ab cb by (simp add: fd ta S1 rep D_def)
  have u: "dplus (Finite A) (Hours 48) = Finite (A + 2 * D)"
    using Ab by (simp add: H48 rep D_def)
  have nle: "\<not> dle (Finite (A + 2 * D)) (Finite A)" by (simp add: dle_iff D_def)
  have In: "Interpolate_utc
      \<lparr>utc = Finite (A + 3 * D), tai = Finite (c + 3 * D - 4000000000), smear = 0\<rparr>
      (Finite (A + 2 * D)) = Finite (c + 2 * D - 4000000000)"
    using Ab cb by (simp add: Interpolate_utc_def rep D_def)
  have Ip: "Interpolate_utc
      \<lparr>utc = Finite (A + 3 * D), tai = Finite (c + 3 * D + 4000000000), smear = 0\<rparr>
      (Finite (A + 2 * D)) = Finite (c + 2 * D + 4000000000)"
    using Ab cb by (simp add: Interpolate_utc_def rep D_def)
  have rhs: "dminus (dplus (Finite c) (Hours 48)) (Seconds 1) = Finite (c + 2 * D - 4000000000)"
    "dplus (dplus (Finite c) (Hours 48)) (Seconds 1) = Finite (c + 2 * D + 4000000000)"
    using cb by (simp_all add: H48 S1 rep D_def)
  show "FutureProofUnsmear lt (dplus (expiration lt) (Hours 48)) =
         (dminus (dplus (tai (hd lt)) (Hours 48)) (Seconds 1),
          dplus (dplus (tai (hd lt)) (Hours 48)) (Seconds 1))"
    unfolding expiration_def lt list.sel ua u ta rhs
    using nle by (simp add: FutureProofUnsmear_def ua adv In Ip)
qed

section \<open>The double-precision model\<close>

text \<open>
  Every operation of the model returns the exact result with a relative error of at most
  \<open>2^-53\<close> (\<open>2^-52\<close> for the division), and integers below \<open>2^53\<close> are exact.
\<close>

subsection \<open>Rounding to 53 bits\<close>

lemma bits_le: "0 \<le> a \<Longrightarrow> bits a \<le> n \<longleftrightarrow> a < 2 ^ n"
proof (induction a arbitrary: n rule: bits.induct)
  case (1 a)
  show ?case
  proof (cases "a \<le> 0")
    case True
    with "1.prems" have "a = 0" by simp
    then show ?thesis by (simp add: bits.simps)
  next
    case False
    then have b: "bits a = Suc (bits (a div 2))" by (subst bits.simps) simp
    show ?thesis
    proof (cases n)
      case 0
      with False b show ?thesis by simp
    next
      case (Suc k)
      have "0 \<le> a div 2" using False by simp
      from "1.IH"[OF False this, of k] have "bits (a div 2) \<le> k \<longleftrightarrow> a div 2 < 2 ^ k" .
      moreover have "a div 2 < 2 ^ k \<longleftrightarrow> a < 2 * 2 ^ k" by arith
      ultimately show ?thesis using b Suc by simp
    qed
  qed
qed

lemma bits_bounds:
  assumes "0 < a"
  shows "2 ^ (bits a - 1) \<le> a" "a < 2 ^ bits a" "0 < bits a"
proof -
  from assms have a: "0 \<le> a" by simp
  show "a < 2 ^ bits a" using bits_le[OF a, of "bits a"] by simp
  show p: "0 < bits a" using assms by (subst bits.simps) simp
  have "\<not> bits a \<le> bits a - 1" using p by simp
  with bits_le[OF a, of "bits a - 1"] show "2 ^ (bits a - 1) \<le> a" by simp
qed

lemma round53_exact: "\<bar>m\<bar> < 2 ^ 53 \<Longrightarrow> round53 m e = Dbl m e"
  by (simp add: round53_def Let_def bits_le)

lemma round53_error:
  obtains m' k where "round53 m e = Dbl m' (e + int k)" "\<bar>m'\<bar> \<le> 2 ^ 53"
    "\<bar>m' * 2 ^ k - m\<bar> * 2 ^ 53 \<le> \<bar>m\<bar>"
proof (cases "bits \<bar>m\<bar> \<le> 53")
  case True
  then have "round53 m e = Dbl m (e + int 0)" by (simp add: round53_def Let_def)
  moreover from True have "\<bar>m\<bar> < 2 ^ 53" by (simp add: bits_le)
  ultimately show ?thesis by (intro that[of m 0]) simp_all
next
  case False
  define a where "a = \<bar>m\<bar>"
  define n where "n = bits a"
  define k where "k = n - 53"
  define q where "q = a div 2 ^ k"
  define r where "r = a mod 2 ^ k"
  define h where "h = (2::int) ^ (k - 1)"
  define q' where "q' = (if h < r \<or> (r = h \<and> odd q) then q + 1 else q)"
  from False have n: "53 < n" by (simp add: n_def a_def)
  then have k: "0 < k" "n = k + 53" by (simp_all add: k_def)
  have apos: "0 < a"
  proof (rule ccontr)
    assume "\<not> 0 < a"
    then have "a = 0" by (simp add: a_def)
    with n show False by (simp add: n_def bits.simps)
  qed
  note bb = bits_bounds[OF apos, folded n_def]
  have p2: "(2::int) ^ k = 2 * h" using k(1) by (cases k) (simp_all add: h_def)
  have aq: "a = q * 2 ^ k + r" unfolding q_def r_def by (rule div_mult_mod_eq[symmetric])
  have rb: "0 \<le> r" "r < 2 * h" unfolding r_def p2[symmetric] by simp_all
  have e1: "\<bar>q' * 2 ^ k - a\<bar> \<le> h"
    unfolding aq p2 q'_def using rb by (auto simp: algebra_simps)
  have "h * 2 ^ 53 = 2 ^ (n - 1)"
    using k by (cases k) (simp_all add: h_def power_add)
  with bb(1) have e2: "h * 2 ^ 53 \<le> a" by simp
  have "a < 2 ^ n" by (rule bb(2))
  also have "(2::int) ^ n = 2 ^ 53 * 2 ^ k" unfolding k(2) by (simp only: power_add mult.commute)
  finally have "a < 2 ^ 53 * 2 ^ k" .
  moreover have "q * 2 ^ k \<le> a" using aq rb(1) by linarith
  ultimately have "q * 2 ^ k < 2 ^ 53 * 2 ^ k" by (rule le_less_trans[rotated])
  then have "q < 2 ^ 53" by (rule mult_right_less_imp_less) simp
  moreover have "0 \<le> q" using apos by (simp add: q_def pos_imp_zdiv_nonneg_iff)
  ultimately have qb: "0 \<le> q'" "q' \<le> 2 ^ 53" by (auto simp: q'_def)
  have m: "m = sgn m * a" by (simp add: a_def mult_sgn_abs)
  have "(sgn m * q') * 2 ^ k - m = sgn m * (q' * 2 ^ k - a)"
    by (subst (2) m) (simp add: algebra_simps)
  then have "\<bar>(sgn m * q') * 2 ^ k - m\<bar> = \<bar>q' * 2 ^ k - a\<bar>"
    using apos by (simp add: abs_mult a_def)
  with e1 have "\<bar>(sgn m * q') * 2 ^ k - m\<bar> * 2 ^ 53 \<le> h * 2 ^ 53" by simp
  with e2 have e3: "\<bar>(sgn m * q') * 2 ^ k - m\<bar> * 2 ^ 53 \<le> \<bar>m\<bar>" by (simp add: a_def)
  have "round53 m e = Dbl (sgn m * q') (e + int k)"
    using False unfolding round53_def Let_def q'_def h_def r_def q_def k_def n_def a_def
    by simp
  moreover have "\<bar>sgn m * q'\<bar> \<le> 2 ^ 53" using qb apos by (simp add: abs_mult a_def)
  ultimately show ?thesis using e3 by (rule that)
qed

subsection \<open>The value of the operations\<close>

lemma real_sgn_abs: "real_of_int m = of_int (sgn m) * of_int \<bar>m\<bar>"
  by (cases "m < 0") (simp_all add: sgn_if)

lemma abs_sgn_mult_le:
  fixes y :: real
  shows "\<bar>of_int (sgn (m::int)) * y\<bar> \<le> \<bar>y\<bar>"
  by (simp add: sgn_if)

lemma dval_powr: "dval (Dbl m e) = of_int m * 2 powr (of_int e)"
  by (simp add: powr_int)

declare dval.simps(1) [simp del]

lemma dval_neg_exp: "e < 0 \<Longrightarrow> dval (Dbl m e) = of_int m / 2 ^ nat (- e)"
  by (simp add: dval.simps(1))

lemma dval_exp0: "dval (Dbl m 0) = of_int m"
  by (simp add: dval.simps(1))

lemma pow2_add: "(2::real) powr (of_int (e + int k)) = 2 powr (of_int e) * 2 ^ k"
  by (simp add: powr_add powr_realpow)

lemma round53_val:
  shows "finite53 (round53 m e)"
    and "\<bar>dval (round53 m e) - of_int m * 2 powr of_int e\<bar>
           \<le> \<bar>of_int m * 2 powr of_int e\<bar> / 2 ^ 53"
proof -
  obtain m' k where r: "round53 m e = Dbl m' (e + int k)" "\<bar>m'\<bar> \<le> 2 ^ 53"
    "\<bar>m' * 2 ^ k - m\<bar> * 2 ^ 53 \<le> \<bar>m\<bar>"
    by (rule round53_error)
  show "finite53 (round53 m e)" using r by simp
  let ?P = "2 powr of_int e :: real"
  have "dval (round53 m e) - of_int m * ?P = of_int (m' * 2 ^ k - m) * ?P"
    by (simp only: r dval_powr pow2_add) (simp add: algebra_simps)
  then have "\<bar>dval (round53 m e) - of_int m * ?P\<bar> = real_of_int \<bar>m' * 2 ^ k - m\<bar> * ?P"
    by (simp add: abs_mult)
  moreover have "real_of_int (\<bar>m' * 2 ^ k - m\<bar> * 2 ^ 53) \<le> real_of_int \<bar>m\<bar>"
    using r(3) by (simp only: of_int_le_iff)
  then have "real_of_int \<bar>m' * 2 ^ k - m\<bar> \<le> real_of_int \<bar>m\<bar> / 2 ^ 53"
    by (simp add: field_simps)
  then have "real_of_int \<bar>m' * 2 ^ k - m\<bar> * ?P \<le> real_of_int \<bar>m\<bar> / 2 ^ 53 * ?P"
    by (rule mult_right_mono) simp
  ultimately show "\<bar>dval (round53 m e) - of_int m * ?P\<bar> \<le> \<bar>of_int m * ?P\<bar> / 2 ^ 53"
    by (simp add: abs_mult)
qed

lemma bits_2_53: "bits 9007199254740992 = 54"
  by code_simp

lemma round53_val_exact:
  assumes "\<bar>m\<bar> \<le> 2 ^ 53"
  shows "dval (round53 m e) = of_int m * 2 powr of_int e"
proof (cases "\<bar>m\<bar> < 2 ^ 53")
  case True
  then show ?thesis by (simp only: round53_exact dval_powr)
next
  case False
  with assms have a: "\<bar>m\<bar> = 9007199254740992" by simp
  then have "round53 m e = Dbl (sgn m * 4503599627370496) (e + int 1)"
    by (simp add: round53_def Let_def bits_2_53)
  moreover have "real_of_int m = of_int (sgn m) * 9007199254740992"
    using a real_sgn_abs[of m] by simp
  ultimately show ?thesis
    by (simp only: dval_powr pow2_add) simp
qed

lemma d_of_int_small: "\<bar>i\<bar> < 2 ^ 53 \<Longrightarrow> d_of_int i = Dbl i 0"
  by (simp add: d_of_int_def round53_exact)

lemma d_add_small: "\<bar>a + b\<bar> < 2 ^ 53 \<Longrightarrow> d_add (Dbl a 0) (Dbl b 0) = Dbl (a + b) 0"
  by (simp add: round53_exact)

lemma ticks_to_double_small:
  assumes "0 \<le> n" "n < 2 ^ 53"
  shows "ticks_to_double n = Dbl n 0"
proof -
  define h where "h = n div 4000000000"
  define l where "l = n mod 4000000000"
  have n: "n = h * 4000000000 + l" by (simp add: h_def l_def)
  have l: "0 \<le> l" "l < 4000000000" by (simp_all add: l_def)
  have h: "0 \<le> h" using assms(1) by (simp add: h_def pos_imp_zdiv_nonneg_iff)
  from n l h assms have b: "h < 2 ^ 53" "h * 4000000000 < 2 ^ 53" by simp_all
  have 1: "d_of_int h = Dbl h 0" using h b by (intro d_of_int_small) simp
  have 2: "d_of_int 4000000000 = Dbl 4000000000 0" by (intro d_of_int_small) simp
  have 3: "d_of_int l = Dbl l 0" using l by (intro d_of_int_small) simp
  have 4: "d_mul (Dbl h 0) (Dbl 4000000000 0) = Dbl (h * 4000000000) 0"
    using h b by (simp add: round53_exact)
  have 5: "d_add (Dbl (h * 4000000000) 0) (Dbl l 0) = Dbl (h * 4000000000 + l) 0"
    using assms n by (intro d_add_small) simp
  show ?thesis
    unfolding ticks_to_double_def kTicksPerSecond_def h_def[symmetric] l_def[symmetric]
    by (simp only: 1 2 3 4 5 n[symmetric])
qed

lemma d_trunc_frac:
  assumes "finite53 (Dbl m e)"
  shows "dval (Dbl m e) = of_int (d_trunc (Dbl m e)) + dval (d_frac (Dbl m e))
       \<and> \<bar>dval (d_frac (Dbl m e))\<bar> < 1
       \<and> \<bar>real_of_int (d_trunc (Dbl m e))\<bar> \<le> \<bar>dval (Dbl m e)\<bar>
       \<and> finite53 (d_add (Dbl 0 0) (d_frac (Dbl m e)))
       \<and> dval (d_add (Dbl 0 0) (d_frac (Dbl m e))) = dval (d_frac (Dbl m e))"
proof (cases "0 \<le> e")
  case True
  then show ?thesis by (simp add: round53_exact dval.simps(1))
next
  case False
  define p where "p = (2::int) ^ nat (- e)"
  define q where "q = \<bar>m\<bar> div p"
  define r where "r = \<bar>m\<bar> mod p"
  have p: "0 < p" by (simp add: p_def)
  have a: "\<bar>m\<bar> = q * p + r" unfolding q_def r_def by (rule div_mult_mod_eq[symmetric])
  have rb: "0 \<le> r" "r < p" using p by (simp_all add: r_def)
  have rm: "r \<le> \<bar>m\<bar>" unfolding r_def by (rule zmod_le_nonneg_dividend) simp
  have qb: "0 \<le> q" using p by (simp add: q_def pos_imp_zdiv_nonneg_iff)
  have t: "d_trunc (Dbl m e) = sgn m * q"
    using False by (simp add: q_def p_def)
  have f: "d_frac (Dbl m e) = Dbl (sgn m * r) e"
    using False by (simp add: r_def p_def)
  have P: "real_of_int p = 2 ^ nat (- e)" by (simp add: p_def)
  have v: "dval (Dbl m e) = of_int (sgn m) * (of_int q + of_int r / of_int p)"
  proof -
    have "real_of_int m = of_int (sgn m) * of_int \<bar>m\<bar>"
      by (rule real_sgn_abs)
    also have "\<dots> = of_int (sgn m) * (of_int q * of_int p + of_int r)"
      by (subst a) simp
    finally have "real_of_int m / of_int p = of_int (sgn m) * (of_int q + of_int r / of_int p)"
      using p by (simp add: field_simps)
    then show ?thesis using False by (simp add: P dval_neg_exp)
  qed
  have vf: "dval (Dbl (sgn m * r) e) = of_int (sgn m) * (of_int r / of_int p)"
    using False by (simp add: P dval_neg_exp)
  have 1: "dval (Dbl m e) = of_int (d_trunc (Dbl m e)) + dval (d_frac (Dbl m e))"
    unfolding t f v vf by (simp add: algebra_simps)
  have rp: "0 \<le> real_of_int r / of_int p" "real_of_int r / of_int p < 1"
    using rb p by simp_all
  have "\<bar>dval (Dbl (sgn m * r) e)\<bar> \<le> \<bar>real_of_int r / of_int p\<bar>"
    unfolding vf by (rule abs_sgn_mult_le)
  with rp have 2: "\<bar>dval (d_frac (Dbl m e))\<bar> < 1" unfolding f by linarith
  have "\<bar>real_of_int (sgn m * q)\<bar> = \<bar>real_of_int (sgn m)\<bar> * of_int q"
    using qb by (simp add: abs_mult)
  also have "\<dots> \<le> \<bar>real_of_int (sgn m)\<bar> * (of_int q + of_int r / of_int p)"
    using rp(1) by (intro mult_left_mono) simp_all
  also have "\<dots> = \<bar>dval (Dbl m e)\<bar>"
    unfolding v using rp(1) qb by (simp add: abs_mult)
  finally have 3: "\<bar>real_of_int (d_trunc (Dbl m e))\<bar> \<le> \<bar>dval (Dbl m e)\<bar>"
    by (simp only: t)
  have "\<bar>sgn m * r\<bar> \<le> \<bar>m\<bar>" using rm rb(1) by (auto simp: abs_mult sgn_if)
  with assms have fb: "\<bar>sgn m * r\<bar> \<le> 2 ^ 53" by simp
  have ad: "d_add (Dbl 0 0) (Dbl (sgn m * r) e) = round53 (sgn m * r) e"
    using False by (simp add: Let_def min_def)
  have 4: "finite53 (d_add (Dbl 0 0) (d_frac (Dbl m e)))"
    unfolding f ad by (rule round53_val(1))
  have 5: "dval (d_add (Dbl 0 0) (d_frac (Dbl m e))) = dval (d_frac (Dbl m e))"
    unfolding f ad by (simp only: round53_val_exact[OF fb] dval_powr)
  from 1 2 3 4 5 show ?thesis by blast
qed

lemma d_round_val: "\<bar>real_of_int (d_round (Dbl m e)) - dval (Dbl m e)\<bar> \<le> 1 / 2"
proof (cases "0 \<le> e")
  case True
  then show ?thesis by (simp add: dval.simps(1))
next
  case False
  define p where "p = (2::int) ^ nat (- e)"
  define q where "q = \<bar>m\<bar> div p"
  define r where "r = \<bar>m\<bar> mod p"
  define c where "c = (if p \<le> 2 * r then q + 1 else q)"
  have p: "0 < p" by (simp add: p_def)
  have a: "\<bar>m\<bar> = q * p + r" unfolding q_def r_def by (rule div_mult_mod_eq[symmetric])
  have rb: "0 \<le> r" "r < p" using p by (simp_all add: r_def)
  have P: "real_of_int p = 2 ^ nat (- e)" by (simp add: p_def)
  have t: "d_round (Dbl m e) = sgn m * c"
    using False by (simp add: Let_def c_def q_def r_def p_def)
  have "real_of_int m = of_int (sgn m) * of_int \<bar>m\<bar>"
    by (rule real_sgn_abs)
  also have "\<dots> = of_int (sgn m) * (of_int q * of_int p + of_int r)"
    by (subst a) simp
  finally have "real_of_int m / of_int p = of_int (sgn m) * (of_int q + of_int r / of_int p)"
    using p by (simp add: field_simps)
  then have v: "dval (Dbl m e) = of_int (sgn m) * (of_int q + of_int r / of_int p)"
    using False by (simp add: P dval_neg_exp)
  have "\<bar>real_of_int c - (of_int q + of_int r / of_int p)\<bar> \<le> 1 / 2"
  proof (cases "p \<le> 2 * r")
    case True
    then have "real_of_int p \<le> 2 * of_int r" by linarith
    then have "1 / 2 \<le> real_of_int r / of_int p" using p by (simp add: field_simps)
    moreover have "real_of_int r / of_int p < 1" using rb p by simp
    ultimately show ?thesis using True by (simp add: c_def)
  next
    case False
    then have "2 * r < p" by simp
    then have "2 * real_of_int r < of_int p" by linarith
    then have "real_of_int r / of_int p < 1 / 2" using p by (simp add: field_simps)
    moreover have "0 \<le> real_of_int r / of_int p" using rb p by simp
    ultimately show ?thesis using False by (simp add: c_def)
  qed
  moreover have "real_of_int (d_round (Dbl m e)) - dval (Dbl m e)
      = of_int (sgn m) * (real_of_int c - (of_int q + of_int r / of_int p))"
    unfolding t v by (simp add: algebra_simps)
  ultimately show ?thesis
    using abs_sgn_mult_le[of m "real_of_int c - (of_int q + of_int r / of_int p)"] by simp
qed

lemma finite53_Dbl:
  assumes "finite53 x"
  obtains m e where "x = Dbl m e" "\<bar>m\<bar> \<le> 2 ^ 53"
  using assms by (cases x) auto

lemma d_mul_val:
  shows "finite53 (d_mul (Dbl m1 e1) (Dbl m2 e2))"
    and "\<bar>dval (d_mul (Dbl m1 e1) (Dbl m2 e2)) - dval (Dbl m1 e1) * dval (Dbl m2 e2)\<bar>
           \<le> \<bar>dval (Dbl m1 e1) * dval (Dbl m2 e2)\<bar> / 2 ^ 53"
    and "\<bar>m1 * m2\<bar> \<le> 2 ^ 53
           \<Longrightarrow> dval (d_mul (Dbl m1 e1) (Dbl m2 e2)) = dval (Dbl m1 e1) * dval (Dbl m2 e2)"
proof -
  have p: "dval (Dbl m1 e1) * dval (Dbl m2 e2) = of_int (m1 * m2) * 2 powr of_int (e1 + e2)"
    by (simp add: dval_powr powr_add)
  show "finite53 (d_mul (Dbl m1 e1) (Dbl m2 e2))"
    unfolding d_mul.simps by (rule round53_val(1))
  show "\<bar>dval (d_mul (Dbl m1 e1) (Dbl m2 e2)) - dval (Dbl m1 e1) * dval (Dbl m2 e2)\<bar>
           \<le> \<bar>dval (Dbl m1 e1) * dval (Dbl m2 e2)\<bar> / 2 ^ 53"
    unfolding d_mul.simps p by (rule round53_val(2))
  show "dval (d_mul (Dbl m1 e1) (Dbl m2 e2)) = dval (Dbl m1 e1) * dval (Dbl m2 e2)"
    if "\<bar>m1 * m2\<bar> \<le> 2 ^ 53"
    unfolding d_mul.simps p by (rule round53_val_exact[OF that])
qed

lemma rel_error_compose:
  fixes u v Y :: real
  assumes "0 < Y" "\<bar>u - Y\<bar> \<le> Y / 2 ^ 56" "\<bar>v - u\<bar> \<le> \<bar>u\<bar> / 2 ^ 53"
  shows "\<bar>v - Y\<bar> \<le> Y / 2 ^ 52"
proof -
  from assms(2) have a: "u - Y \<le> Y / 2 ^ 56" "- (Y / 2 ^ 56) \<le> u - Y"
    by (simp_all only: abs_le_iff) linarith+
  with assms(1) have u: "0 \<le> u" by simp
  with assms(3) have b: "v - u \<le> u / 2 ^ 53" "- (u / 2 ^ 53) \<le> v - u"
    by (simp_all only: abs_le_iff abs_of_nonneg) linarith+
  from a b assms(1) show ?thesis
    unfolding abs_le_iff by simp
qed

lemma d_div_val:
  assumes "0 < a" "0 < b"
  shows "finite53 (d_div (Dbl a 0) (Dbl b 0))"
    and "\<bar>dval (d_div (Dbl a 0) (Dbl b 0)) - of_int a / of_int b\<bar>
           \<le> (of_int a / of_int b) / 2 ^ 52"
proof -
  define k where "k = nat (max 0 (int (bits b) + 56 - int (bits a)))"
  define Q where "Q = (a * 2 ^ k) div b"
  define R where "R = (a * 2 ^ k) mod b"
  define q2 where "q2 = 2 * Q + (if R = 0 then 0 else 1)"
  have "d_div (Dbl a 0) (Dbl b 0) = round53 q2 (0 - 0 - int k - 1)"
    using assms by (simp add: Let_def k_def Q_def R_def q2_def)
  moreover have "0 - 0 - int k - 1 = - int (Suc k)" by simp
  ultimately have dd: "d_div (Dbl a 0) (Dbl b 0) = round53 q2 (- int (Suc k))"
    by (simp only:)
  show "finite53 (d_div (Dbl a 0) (Dbl b 0))"
    unfolding dd by (rule round53_val(1))
  define P :: real where "P = 1 / 2 ^ Suc k"
  have Pp: "0 < P" by (simp add: P_def)
  have PP: "2 powr real_of_int (- int (Suc k)) = P"
  proof -
    have "(2::real) powr real_of_int (- int (Suc k)) = 2 powr (- real (Suc k))" by simp
    also have "\<dots> = inverse (2 powr real (Suc k))" by (rule powr_minus)
    also have "\<dots> = inverse (2 ^ Suc k)" by (subst powr_realpow) simp_all
    finally show ?thesis unfolding P_def by (simp only: inverse_eq_divide)
  qed
  define Y :: real where "Y = of_int a / of_int b"
  have Yp: "0 < Y" using assms by (simp add: Y_def)
  have aQ: "a * 2 ^ k = Q * b + R" unfolding Q_def R_def by (rule div_mult_mod_eq[symmetric])
  have Rb: "0 \<le> R" "R < b" using assms(2) by (simp_all add: R_def)
  have ra: "real_of_int a * 2 ^ k = of_int Q * of_int b + of_int R"
    using aQ by (metis of_int_add of_int_mult of_int_numeral of_int_power)
  have X: "Y * 2 ^ Suc k = 2 * of_int Q + 2 * (of_int R / of_int b)"
  proof -
    have "Y * 2 ^ Suc k = 2 * (real_of_int a * 2 ^ k) / of_int b"
      by (simp add: Y_def)
    also have "\<dots> = 2 * of_int Q + 2 * (of_int R / of_int b)"
      unfolding ra using assms(2) by (simp add: field_simps)
    finally show ?thesis .
  qed
  have rb: "0 \<le> real_of_int R / of_int b" "real_of_int R / of_int b < 1"
    using Rb assms(2) by simp_all
  have e1: "\<bar>of_int q2 - Y * 2 ^ Suc k\<bar> \<le> 1"
  proof (cases "R = 0")
    case True
    then show ?thesis unfolding X q2_def by simp
  next
    case False
    with Rb have "0 < R" by simp
    then have "0 < real_of_int R / of_int b" using assms(2) by simp
    with rb(2) show ?thesis unfolding X q2_def using False by simp
  qed
  have big: "b * 2 ^ 55 \<le> a * 2 ^ k"
  proof -
    note ba = bits_bounds[OF assms(1)]
    note bb = bits_bounds[OF assms(2)]
    have kk: "bits b + 56 \<le> bits a + k" by (simp add: k_def)
    have "b * 2 ^ 55 \<le> 2 ^ bits b * 2 ^ 55" using bb(2) by simp
    also have "\<dots> = 2 ^ (bits b + 55)" by (simp only: power_add)
    also have "\<dots> \<le> 2 ^ (bits a - 1 + k)" using kk ba(3) by (intro power_increasing) simp_all
    also have "\<dots> = 2 ^ (bits a - 1) * 2 ^ k" by (simp only: power_add)
    also have "\<dots> \<le> a * 2 ^ k" using ba(1) by (intro mult_right_mono) simp_all
    finally show ?thesis .
  qed
  then have "real_of_int (b * 2 ^ 55) \<le> real_of_int (a * 2 ^ k)" by (simp only: of_int_le_iff)
  then have "real_of_int b * 2 ^ 55 \<le> real_of_int a * 2 ^ k" by simp
  then have "2 ^ 55 \<le> Y * 2 ^ k" using assms(2) by (simp add: Y_def field_simps)
  then have big': "2 ^ 56 \<le> Y * 2 ^ Suc k" by simp
  have e2: "\<bar>of_int q2 * P - Y\<bar> \<le> Y / 2 ^ 56"
  proof -
    have "of_int q2 * P - Y = (of_int q2 - Y * 2 ^ Suc k) * P"
      by (simp add: P_def field_simps)
    then have "\<bar>of_int q2 * P - Y\<bar> = \<bar>of_int q2 - Y * 2 ^ Suc k\<bar> * P"
      using Pp by (simp add: abs_mult)
    also have "\<dots> \<le> 1 * P" using e1 Pp by (intro mult_right_mono) simp_all
    also have "\<dots> \<le> (Y * 2 ^ Suc k / 2 ^ 56) * P"
      using big' Pp by (intro mult_right_mono) simp_all
    also have "\<dots> = Y / 2 ^ 56" by (simp add: P_def)
    finally show ?thesis .
  qed
  have e3: "\<bar>dval (round53 q2 (- int (Suc k))) - of_int q2 * P\<bar> \<le> \<bar>of_int q2 * P\<bar> / 2 ^ 53"
    using round53_val(2)[of q2 "- int (Suc k)"] unfolding PP .
  define u where "u = real_of_int q2 * P"
  define v where "v = dval (round53 q2 (- int (Suc k)))"
  from e2 e3 have "\<bar>u - Y\<bar> \<le> Y / 2 ^ 56" "\<bar>v - u\<bar> \<le> \<bar>u\<bar> / 2 ^ 53"
    by (simp_all only: u_def v_def)
  with Yp have "\<bar>v - Y\<bar> \<le> Y / 2 ^ 52" by (rule rel_error_compose)
  then show "\<bar>dval (d_div (Dbl a 0) (Dbl b 0)) - of_int a / of_int b\<bar>
           \<le> (of_int a / of_int b) / 2 ^ 52"
    by (simp only: dd v_def Y_def)
qed

lemma sdiv_smod_second:
  fixes a :: int
  assumes "\<bar>a\<bar> \<le> 4000000000"
  shows "(a sdiv 4000000000) * 4000000000 + a smod 4000000000 = a"
    and "\<bar>a sdiv 4000000000\<bar> \<le> 1"
proof -
  have pos: "(c sdiv 4000000000) * 4000000000 + c smod 4000000000 = c" if "0 \<le> c" for c :: int
    using that by (simp add: signed_divide_int_def signed_modulo_int_def sgn_if)
  show "(a sdiv 4000000000) * 4000000000 + a smod 4000000000 = a"
  proof (cases "0 \<le> a")
    case True
    then show ?thesis by (rule pos)
  next
    case False
    then have "0 \<le> - a" by simp
    from pos[OF this] show ?thesis by (simp add: minus_sdiv_eq minus_smod_eq)
  qed
  have "\<bar>a\<bar> div 4000000000 \<le> 4000000000 div 4000000000"
    using assms by (rule zdiv_mono1) simp
  moreover have "0 \<le> \<bar>a\<bar> div 4000000000" by (simp add: pos_imp_zdiv_nonneg_iff)
  ultimately show "\<bar>a sdiv 4000000000\<bar> \<le> 1"
    by (cases "0 < a"; cases "a = 0") (simp_all add: signed_divide_int_def abs_mult sgn_if)
qed

lemma SafeAddRepHi_small:
  assumes "\<bar>a\<bar> \<le> 2" "\<bar>b\<bar> \<le> 2"
  shows "SafeAddRepHi (d_of_int a) (d_of_int b) = Finite ((a + b) * kTicksPerSecond)"
proof -
  have 1: "d_of_int a = Dbl a 0" using assms by (intro d_of_int_small) simp
  have 2: "d_of_int b = Dbl b 0" using assms by (intro d_of_int_small) simp
  have 3: "d_add (Dbl a 0) (Dbl b 0) = Dbl (a + b) 0" using assms by (intro d_add_small) simp
  show ?thesis
    using assms unfolding SafeAddRepHi_def 1 2 3
    by (simp add: Let_def kint64max_def kint64min_def abs_le_iff)
qed

subsection \<open>One second scaled by a fraction\<close>

lemma abs_chain:
  fixes a b c :: real
  shows "\<bar>a - b\<bar> \<le> x \<Longrightarrow> \<bar>b - c\<bar> \<le> y \<Longrightarrow> \<bar>a - c\<bar> \<le> x + y"
  by linarith

lemma abs_scale:
  fixes x y c e :: real and s :: int
  assumes "s = 1 \<or> s = - 1" "\<bar>x - y\<bar> \<le> e"
  shows "\<bar>of_int s * c * x - of_int s * (c * y)\<bar> \<le> \<bar>c\<bar> * e"
proof -
  have "of_int s * c * x - of_int s * (c * y) = of_int s * (c * (x - y))"
    by (simp add: algebra_simps)
  moreover have "\<bar>real_of_int s\<bar> = 1" using assms(1) by auto
  ultimately have "\<bar>of_int s * c * x - of_int s * (c * y)\<bar> = \<bar>c\<bar> * \<bar>x - y\<bar>"
    by (simp only: abs_mult)
  also have "\<dots> \<le> \<bar>c\<bar> * e" using assms(2) by (intro mult_left_mono) simp_all
  finally show ?thesis .
qed

lemma ScaleDouble_second:
  assumes f: "finite53 (Dbl m e)" and v: "\<bar>dval (Dbl m e)\<bar> < 2" and s: "s = 1 \<or> s = - 1"
  shows "\<exists>R. ScaleDouble (s * 4000000000) (Dbl m e) = Finite R
             \<and> \<bar>of_int R - of_int s * 4000000000 * dval (Dbl m e)\<bar>
                  \<le> 1 / 2 + 4000000000 / 2 ^ 53"
proof -
  have dv: "(s * 4000000000) div kTicksPerSecond = s" "(s * 4000000000) mod kTicksPerSecond = 0"
    by (simp_all add: kTicksPerSecond_def)
  have os: "d_of_int s = Dbl s 0" using s by (intro d_of_int_small) auto
  have o0: "d_of_int 0 = Dbl 0 0" by (intro d_of_int_small) simp
  have ok: "d_of_int kTicksPerSecond = Dbl 4000000000 0"
    by (simp add: kTicksPerSecond_def d_of_int_small)
  define H where "H = d_mul (Dbl s 0) (Dbl m e)"
  have sm: "\<bar>s * m\<bar> \<le> 2 ^ 53" using f s by auto
  have Hf: "finite53 H" unfolding H_def by (rule d_mul_val(1))
  have Hv: "dval H = of_int s * dval (Dbl m e)"
    unfolding H_def using d_mul_val(3)[OF sm, of 0 e] by (simp add: dval_exp0)
  obtain mh eh where H: "H = Dbl mh eh" "\<bar>mh\<bar> \<le> 2 ^ 53" using Hf by (rule finite53_Dbl)
  have lo: "d_mul (Dbl 0 0) (Dbl m e) = Dbl 0 (0 + e)" by (simp add: round53_exact)
  have dz: "d_div (Dbl 0 (0 + e)) (Dbl 4000000000 0) = Dbl 0 0" by simp
  define hi where "hi = d_trunc H"
  define F where "F = d_frac H"
  define L where "L = d_add (Dbl 0 0) F"
  have "finite53 (Dbl mh eh)" using H(2) by simp
  note c1 = d_trunc_frac[OF this, folded H(1), folded hi_def F_def, folded L_def]
  have tf: "dval H = of_int hi + dval F" "\<bar>dval F\<bar> < 1" "\<bar>real_of_int hi\<bar> \<le> \<bar>dval H\<bar>"
    "finite53 L" "dval L = dval F"
    using c1 by blast+
  obtain ml el where Lr: "L = Dbl ml el" "\<bar>ml\<bar> \<le> 2 ^ 53" using tf(4) by (rule finite53_Dbl)
  define F2 where "F2 = d_frac L"
  have "finite53 (Dbl ml el)" using Lr(2) by simp
  note c2 = d_trunc_frac[OF this, folded Lr(1), folded F2_def]
  have tl: "dval L = of_int (d_trunc L) + dval F2" "\<bar>real_of_int (d_trunc L)\<bar> \<le> \<bar>dval L\<bar>"
    using c2 by blast+
  from tl(2) tf(2,5) have "\<bar>real_of_int (d_trunc L)\<bar> < 1" by simp
  then have li: "d_trunc L = 0" by linarith
  with tl(1) tf(5) have F2v: "dval F2 = dval F" by simp
  obtain m2 e2 where F2: "F2 = Dbl m2 e2"
    unfolding F2_def Lr(1) by (cases "0 \<le> el") simp_all
  define M where "M = d_mul F2 (Dbl 4000000000 0)"
  have Mf: "finite53 M" unfolding M_def F2 by (rule d_mul_val(1))
  have "\<bar>dval M - dval F2 * dval (Dbl 4000000000 0)\<bar>
          \<le> \<bar>dval F2 * dval (Dbl 4000000000 0)\<bar> / 2 ^ 53"
    unfolding M_def F2 by (rule d_mul_val(2))
  then have Mv: "\<bar>dval M - 4000000000 * dval F\<bar> \<le> \<bar>4000000000 * dval F\<bar> / 2 ^ 53"
    by (simp add: dval_exp0 F2v mult.commute)
  obtain mm em where Mr: "M = Dbl mm em" using Mf by (rule finite53_Dbl)
  define lo64 where "lo64 = d_round M"
  have lr: "\<bar>real_of_int lo64 - dval M\<bar> \<le> 1 / 2"
    unfolding lo64_def Mr by (rule d_round_val)
  have Fb: "\<bar>4000000000 * dval F\<bar> \<le> 4000000000" using tf(2) by simp
  have "\<bar>4000000000 * dval F\<bar> / 2 ^ 53 \<le> 4000000000 / 2 ^ 53"
    using Fb by (rule divide_right_mono) simp
  with Mv have "\<bar>dval M - 4000000000 * dval F\<bar> \<le> 4000000000 / 2 ^ 53" by (rule order_trans)
  with lr have er: "\<bar>real_of_int lo64 - 4000000000 * dval F\<bar> \<le> 1 / 2 + 4000000000 / 2 ^ 53"
    by (rule abs_chain)
  then have "\<bar>real_of_int lo64 - 4000000000 * dval F\<bar> \<le> 3 / 4" by simp
  with Fb have "\<bar>real_of_int lo64\<bar> < 4000000001" by linarith
  then have lb: "\<bar>lo64\<bar> \<le> 4000000000" by linarith
  have "\<bar>real_of_int hi\<bar> < 2" using tf(3) Hv v s by auto
  then have hb: "\<bar>hi\<bar> \<le> 1" by linarith
  note sd = sdiv_smod_second[OF lb]
  have S1: "SafeAddRepHi (d_of_int hi) (Dbl 0 0) = Finite (hi * kTicksPerSecond)"
    using SafeAddRepHi_small[of hi 0] hb by (simp add: o0)
  have S2: "SafeAddRepHi (d_of_int hi) (d_of_int (lo64 sdiv 4000000000))
              = Finite ((hi + lo64 sdiv 4000000000) * kTicksPerSecond)"
    using hb sd(2) by (intro SafeAddRepHi_small) simp_all
  have res: "ScaleDouble (s * 4000000000) (Dbl m e) = Finite (hi * 4000000000 + lo64)"
    apply (simp only: ScaleDouble_def Let_def dv os o0 ok)
    apply (simp only: H_def[symmetric] lo dz)
    apply (simp only: hi_def[symmetric] F_def[symmetric])
    apply (simp only: L_def[symmetric] li o0)
    apply (simp only: F2_def[symmetric] M_def[symmetric] lo64_def[symmetric] S1 Duration.case)
    using S2 sd(1) apply (simp add: kTicksPerSecond_def algebra_simps)
    done
  have eq: "real_of_int (hi * 4000000000 + lo64) - of_int s * 4000000000 * dval (Dbl m e)
        = real_of_int lo64 - 4000000000 * dval F"
    using tf(1) Hv by (simp add: algebra_simps)
  have "\<bar>real_of_int (hi * 4000000000 + lo64) - of_int s * 4000000000 * dval (Dbl m e)\<bar>
          \<le> 1 / 2 + 4000000000 / 2 ^ 53"
    unfolding eq by (rule er)
  with res show ?thesis by blast
qed

lemma scaled_second:
  assumes "0 \<le> d" "d \<le> B" "0 < B" "B < 2 ^ 53" "s = 1 \<or> s = - 1"
  shows "\<exists>R. dmul_double (Seconds s) (FDivDuration (Finite d) (Finite B)) = Finite R
             \<and> \<bar>real_of_int R - of_int s * (4000000000 * of_int d / of_int B)\<bar>
                  \<le> 1 / 2 + 1 / 500000"
proof -
  have tB: "ticks_to_double B = Dbl B 0" using assms by (intro ticks_to_double_small) simp_all
  have td: "ticks_to_double d = Dbl d 0" using assms by (intro ticks_to_double_small) simp_all
  define q where "q = d_div (Dbl d 0) (Dbl B 0)"
  have fd: "FDivDuration (Finite d) (Finite B) = q"
    using assms(3) by (simp add: tB td q_def)
  define Y :: real where "Y = of_int d / of_int B"
  have Yb: "0 \<le> Y" "Y \<le> 1" using assms by (simp_all add: Y_def)
  have q: "finite53 q \<and> \<bar>dval q - Y\<bar> \<le> Y / 2 ^ 52"
  proof (cases "d = 0")
    case True
    then show ?thesis by (simp add: q_def Y_def dval_exp0)
  next
    case False
    with assms(1) have "0 < d" by simp
    from d_div_val[OF this assms(3)] show ?thesis by (simp only: q_def Y_def)
  qed
  then obtain m e where qr: "q = Dbl m e" "\<bar>m\<bar> \<le> 2 ^ 53" by (blast elim: finite53_Dbl)
  from q have "\<bar>dval q - Y\<bar> \<le> Y / 2 ^ 52" by blast
  also have "Y / 2 ^ 52 \<le> 1 / 2 ^ 52" using Yb(2) by (rule divide_right_mono) simp
  finally have qe: "\<bar>dval q - Y\<bar> \<le> 1 / 2 ^ 52" .
  then have "dval q - Y \<le> 1 / 2 ^ 52" "- (1 / 2 ^ 52) \<le> dval q - Y"
    by (simp_all only: abs_le_iff) linarith+
  then have "\<bar>dval (Dbl m e)\<bar> < 2" using Yb unfolding qr(1) abs_less_iff by simp
  moreover have "finite53 (Dbl m e)" using qr(2) by simp
  ultimately obtain R where R: "ScaleDouble (s * 4000000000) (Dbl m e) = Finite R"
    "\<bar>of_int R - of_int s * 4000000000 * dval (Dbl m e)\<bar> \<le> 1 / 2 + 4000000000 / 2 ^ 53"
    using ScaleDouble_second[OF _ _ assms(5)] by blast
  have "dmul_double (Seconds s) (FDivDuration (Finite d) (Finite B)) = Finite R"
    unfolding fd qr(1) Seconds_def kTicksPerSecond_def using R(1) by simp
  moreover have "\<bar>real_of_int R - of_int s * (4000000000 * Y)\<bar> \<le> 1 / 2 + 1 / 500000"
  proof -
    from abs_scale[OF assms(5) qe, of 4000000000]
    have "\<bar>of_int s * 4000000000 * dval q - of_int s * (4000000000 * Y)\<bar>
            \<le> 4000000000 * (1 / 2 ^ 52)"
      by simp
    from abs_chain[OF R(2)[folded qr(1)] this] show ?thesis by simp
  qed
  ultimately show ?thesis unfolding Y_def by (intro exI[of _ R] conjI) simp_all
qed

section \<open>The round trip inside a table\<close>

lemma scaled_bound:
  fixes R d s :: int
  assumes "s = 1 \<or> s = - 1"
    and "\<bar>real_of_int R - of_int s * (4000000000 * of_int d / of_int 345600000000000)\<bar>
           \<le> 1 / 2 + 1 / 500000"
  shows "\<bar>86400 * R - s * d\<bar> \<le> 43200"
proof -
  define z where "z = real_of_int R - of_int s * (4000000000 * of_int d / of_int 345600000000000)"
  have e: "real_of_int (86400 * R - s * d) = 86400 * z"
    by (simp add: z_def)
  have "\<bar>real_of_int (86400 * R - s * d)\<bar> = 86400 * \<bar>z\<bar>"
    unfolding e abs_mult by simp
  also have "\<dots> \<le> 86400 * (1 / 2 + 1 / 500000)"
    using assms(2) unfolding z_def[symmetric] by (intro mult_left_mono) simp_all
  also have "\<dots> < 43201" by simp
  finally have "real_of_int \<bar>86400 * R - s * d\<bar> < 43201" by simp
  then show ?thesis by linarith
qed

lemma scaled_back:
  fixes R R' d s :: int
  assumes s: "s = 1 \<or> s = - 1"
    and b: "\<bar>86400 * R - s * d\<bar> \<le> 43200"
    and t: "s = - 1 \<longrightarrow> d mod 86400 \<noteq> 43200"
    and r: "\<bar>real_of_int R' - of_int s * (4000000000 * of_int (d + R)
               / of_int (345600000000000 + s * 4000000000))\<bar> \<le> 1 / 2 + 1 / 500000"
  shows "R' = R"
proof -
  define N :: int where "N = 86400 + s"
  have N: "86399 \<le> N" "N \<le> 86401" using s by (auto simp: N_def)
  have B: "(345600000000000 + s * 4000000000) = 4000000000 * N" by (simp add: N_def)
  define w where "w = s * d - 86400 * R"
  have w: "\<bar>w\<bar> * 2 < N"
  proof (cases "s = 1")
    case True
    with b show ?thesis by (simp add: w_def N_def abs_minus_commute)
  next
    case False
    with s have s1: "s = - 1" by simp
    with t have "d mod 86400 \<noteq> 43200" by simp
    have "w = - d + (- R) * 86400" by (simp add: w_def s1)
    then have wm: "w mod 86400 = (- d) mod 86400" by (simp only: mod_mult_self1)
    have "\<bar>w\<bar> \<noteq> 43200"
    proof
      assume a: "\<bar>w\<bar> = 43200"
      then have "w = 43200 \<or> w = - 43200" by linarith
      then have "w mod 86400 = 43200" by auto
      with wm have "(- d) mod 86400 = 43200" by simp
      then have "d mod 86400 = 43200" by (simp add: zmod_zminus1_eq_if split: if_splits)
      with \<open>d mod 86400 \<noteq> 43200\<close> show False by simp
    qed
    moreover from b have "\<bar>w\<bar> \<le> 43200" by (simp add: w_def abs_minus_commute)
    ultimately have "\<bar>w\<bar> \<le> 43199" by linarith
    then show ?thesis using s1 by (simp add: N_def)
  qed
  have Np: "0 < real_of_int N" using N by simp
  have "of_int s * (4000000000 * real_of_int (d + R) / of_int (4000000000 * N)) - of_int R
        = of_int w / of_int N"
  proof -
    have c: "4000000000 * x / (4000000000 * y) = x / y" for x y :: real by simp
    have "4000000000 * real_of_int (d + R) / of_int (4000000000 * N)
          = real_of_int (d + R) / of_int N"
      unfolding of_int_mult of_int_numeral by (rule c)
    then have 1: "of_int s * (4000000000 * real_of_int (d + R) / of_int (4000000000 * N))
          = of_int (s * (d + R)) / of_int N"
      by (simp only: of_int_mult times_divide_eq_right)
    have "s * (d + R) - N * R = w"
      using s by (auto simp: w_def N_def algebra_simps)
    then have 2: "real_of_int (s * (d + R)) - of_int N * of_int R = of_int w"
      by (simp only: of_int_diff[symmetric] of_int_mult[symmetric])
    have 3: "A / y - r = (A - y * r) / y" if "0 < y" for A y r :: real
      using that by (simp add: field_simps)
    show ?thesis unfolding 1 3[OF Np] 2 ..
  qed
  moreover have "\<bar>real_of_int w / of_int N\<bar> \<le> 1 / 2 - 1 / 200000"
  proof -
    from w have "2 * \<bar>w\<bar> + 1 \<le> N" by linarith
    then have "2 * real_of_int \<bar>w\<bar> + 1 \<le> of_int N" by linarith
    moreover have "real_of_int N \<le> 86401" using N by simp
    ultimately have "real_of_int \<bar>w\<bar> * 200000 \<le> 99999 * of_int N" by linarith
    then have "real_of_int \<bar>w\<bar> / of_int N \<le> 99999 / 200000"
      using Np by (simp add: field_simps)
    then show ?thesis using Np by (simp add: abs_divide)
  qed
  ultimately have "\<bar>real_of_int R' - of_int R\<bar> < 1"
    using r unfolding B by linarith
  then show ?thesis by linarith
qed

lemma ToTaiTime_TAI: "representable x \<Longrightarrow> ToTaiTime TAI (Finite x) = Finite x"
  by (simp add: ToTaiTime_def TaiEpoch_def ZeroDuration_def representable_small)

lemma interpolate_round_trip:
  assumes e: "utc e = Finite a" "tai e = Finite c" "smear e = s" "s = - 1 \<or> s = 0 \<or> s = 1"
    and bd: "0 \<le> n" "n \<le> a" "a \<le> 1100000000000000000000"
      "0 \<le> c" "c \<le> 1100000000000000000000"
    and w: "s \<noteq> 0 \<longrightarrow> a - n \<le> 345600000000000"
  shows "\<exists>R. Interpolate_utc e (Finite n) = Finite (c - (a - n) - R)
           \<and> (s = 0 \<longrightarrow> R = 0)
           \<and> 0 \<le> a - n + R \<and> (0 < a - n \<longrightarrow> 0 < a - n + R)
           \<and> (s \<noteq> 0 \<longrightarrow> a - n + R \<le> 345600000000000 + s * 4000000000)
           \<and> (\<not> (s = - 1 \<and> (a - n) mod 86400 = 43200)
                \<longrightarrow> Interpolate_tai e (Finite (c - (a - n) - R)) = Finite n)"
proof -
  define d where "d = a - n"
  have d: "0 \<le> d" "d \<le> 1100000000000000000000" using bd by (simp_all add: d_def)
  have rep: "representable x"
    if "- 5000000000000000000000 \<le> x" "x \<le> 5000000000000000000000" for x
    using that by (intro representable_small) simp_all
  have H24: "Hours 24 = Finite 345600000000000"
    by (simp add: Hours_def kint64max_def kTicksPerSecond_def)
  have an: "a - n = d" "dminus (Finite a) (Finite n) = Finite d"
    using d by (simp_all add: d_def[symmetric] rep)
  show ?thesis
  proof (cases "s = 0")
    case True
    have 1: "Interpolate_utc e (Finite n) = Finite (c - d - 0)"
      using d bd True by (simp add: Interpolate_utc_def e an rep)
    have 2: "Interpolate_tai e (Finite (c - d - 0)) = Finite n"
      using d bd True by (simp add: Interpolate_tai_def e rep d_def)
    show ?thesis unfolding an using 1 2 True d by (intro exI[of _ 0]) simp
  next
    case False
    with e(4) have s: "s = 1 \<or> s = - 1" by auto
    from False w have dD: "d \<le> 345600000000000" by (simp add: d_def)
    from scaled_second[OF d(1) dD _ _ s] obtain R
      where R: "dmul_double (Seconds s) (FDivDuration (Finite d) (Finite 345600000000000)) = Finite R"
        "\<bar>real_of_int R - of_int s * (4000000000 * of_int d / of_int 345600000000000)\<bar>
           \<le> 1 / 2 + 1 / 500000"
      by auto
    from scaled_bound[OF s R(2)] have b: "\<bar>86400 * R - s * d\<bar> \<le> 43200" .
    have r1: "0 \<le> d + R" "0 < d \<longrightarrow> 0 < d + R" "d + R \<le> 345600000000000 + s * 4000000000"
      "\<bar>R\<bar> \<le> 4000000001"
      using s b d(1) dD by auto
    have 1: "Interpolate_utc e (Finite n) = Finite (c - d - R)"
      using d bd False r1(4) by (simp add: Interpolate_utc_def e an H24 R(1) rep del: FDivDuration.simps)
    have 2: "Interpolate_tai e (Finite (c - d - R)) = Finite n"
      if nt: "\<not> (s = - 1 \<and> d mod 86400 = 43200)"
    proof -
      have B: "dplus (Hours 24) (Seconds s) = Finite (345600000000000 + s * 4000000000)"
        using s by (auto simp: H24 Seconds_def kTicksPerSecond_def rep)
      have Bp: "0 < 345600000000000 + s * 4000000000" "345600000000000 + s * 4000000000 < 2 ^ 53"
        using s by auto
      from scaled_second[OF r1(1) r1(3) Bp s] obtain R'
        where R': "dmul_double (Seconds s)
                     (FDivDuration (Finite (d + R)) (Finite (345600000000000 + s * 4000000000)))
                   = Finite R'"
          "\<bar>real_of_int R' - of_int s * (4000000000 * of_int (d + R)
               / of_int (345600000000000 + s * 4000000000))\<bar> \<le> 1 / 2 + 1 / 500000"
        by auto
      from nt have "s = - 1 \<longrightarrow> d mod 86400 \<noteq> 43200" by simp
      from scaled_back[OF s b this R'(2)] have RR: "R' = R" .
      have x: "c - (c - d - R) = d + R" "a - (d + R) = n - R" by (simp_all add: d_def)
      have "dminus (Finite c) (Finite (c - d - R)) = Finite (d + R)"
        using d r1 by (simp add: x rep)
      moreover have "dminus (Finite a) (Finite (d + R)) = Finite (n - R)"
        using bd r1 by (simp add: x rep)
      moreover have "dplus (Finite (n - R)) (Finite R) = Finite n"
        using bd by (simp add: rep)
      ultimately show ?thesis
        using False by (simp add: Interpolate_tai_def e B R'(1) RR del: FDivDuration.simps)
    qed
    show ?thesis unfolding an using 1 2 False r1 by (intro exI[of _ R]) simp
  qed
qed

lemma round_trip_in_table:
  assumes N: "NewLeapTableFromProto proto = Some lt"
    and lo: "dle ModernUtcEpoch (Finite n)" and hi: "dle (Finite n) (expiration lt)"
  shows "\<exists>ta. Unsmear lt (Finite n) = Some ta
           \<and> (\<not> at_rounding_tie lt n \<longrightarrow> Smear TAI lt ta = Some (Finite n))"
proof -
  note T = constructed_table[OF N]
  from T(1) have ne: "lt \<noteq> []" by auto
  have hd: "hd lt = lt ! 0" using ne by (simp add: hd_conv_nth)
  have "utc (last lt) = ModernUtcEpoch" by (simp add: T(5) back_entry_def)
  with lo have "dle (utc (last lt)) (Finite n)" by simp
  from seek_Some[where es=lt and key=utc and x="Finite n", OF T(1) this]
  obtain i where i: "Suc i < length lt" "seek utc (Finite n) lt = Some (lt ! i)"
    "dle (utc (lt ! Suc i)) (Finite n)" "0 < i \<longrightarrow> \<not> dle (utc (lt ! i)) (Finite n)"
    by blast
  define e where "e = lt ! i"
  define s where "s = smear e"
  from T(8) i(1) obtain a b c' where st: "utc e = Finite a" "utc (lt ! Suc i) = Finite b"
    "tai (lt ! Suc i) = Finite c'" "tai e = Finite (c' + (a - b) + s * 4000000000)"
    unfolding e_def s_def by blast
  define c where "c = c' + (a - b) + s * 4000000000"
  have em: "e \<in> set lt" "lt ! Suc i \<in> set lt" using i(1) by (simp_all add: e_def)
  with T(2) have ok: "entry_ok e" "entry_ok (lt ! Suc i)" by blast+
  from ok(1) st have eb: "0 \<le> a" "a \<le> 1100000000000000000000" "0 \<le> c"
    "c \<le> 1100000000000000000000"
    by (auto elim!: entry_ok_Finite simp: c_def)
  from ok(2) st have fb: "0 \<le> b" "0 \<le> c'"
    by (auto elim!: entry_ok_Finite)
  from ok(1) have sv: "s = - 1 \<or> s = 0 \<or> s = 1"
    by (auto simp: entry_ok_def key_ok_def s_def)
  from i(3) st(2) have bn: "b \<le> n" by (simp add: dle_iff)
  have na: "n \<le> a" "0 < i \<longrightarrow> n < a"
  proof -
    show "0 < i \<longrightarrow> n < a" using i(4) st(1) by (auto simp: dle_iff e_def)
    then show "n \<le> a" using hi st(1) by (cases i) (simp_all add: expiration_def hd e_def dle_iff)
  qed
  have win: "a - b = 345600000000000" if "s \<noteq> 0"
  proof -
    from T(9) i(1) that obtain j where "utc e = Finite (noon_ticks (j + 1))"
      "utc (lt ! Suc i) = Finite (noon_ticks j)"
      unfolding e_def s_def by blast
    with st show ?thesis by (simp add: noon_ticks_def)
  qed
  have w: "s \<noteq> 0 \<longrightarrow> a - n \<le> 345600000000000" using win bn by auto
  have n0: "0 \<le> n" using fb bn by simp
  from interpolate_round_trip[OF st(1) st(4)[folded c_def] s_def[symmetric] sv n0 na(1) eb(2,3,4) w]
  obtain R where R: "Interpolate_utc e (Finite n) = Finite (c - (a - n) - R)"
    "s = 0 \<longrightarrow> R = 0" "0 \<le> a - n + R" "0 < a - n \<longrightarrow> 0 < a - n + R"
    "s \<noteq> 0 \<longrightarrow> a - n + R \<le> 345600000000000 + s * 4000000000"
    "\<not> (s = - 1 \<and> (a - n) mod 86400 = 43200)
       \<longrightarrow> Interpolate_tai e (Finite (c - (a - n) - R)) = Finite n"
    by blast
  define ta where "ta = c - (a - n) - R"
  have un: "Unsmear lt (Finite n) = Some (Finite ta)"
    using hi i(2) R(1) by (simp add: Unsmear_def FutureProofUnsmear_def expiration_def e_def ta_def)
  have lower: "c' \<le> ta"
  proof (cases "s = 0")
    case True
    with R(2) bn show ?thesis by (simp add: ta_def c_def)
  next
    case False
    with R(5) win show ?thesis by (simp add: ta_def c_def)
  qed
  have upper: "ta \<le> c" "0 < i \<longrightarrow> ta < c"
    using R(3,4) na(2) by (auto simp: ta_def)
  have tr: "representable ta" using lower upper fb eb by (intro representable_small) simp_all
  have t0: "\<not> dless (Finite ta) ZeroDuration"
    using lower fb by (simp add: dless_iff ZeroDuration_def)
  have th: "dle (Finite ta) (tai (hd lt))"
  proof (cases i)
    case 0
    with upper(1) st(4) show ?thesis by (simp add: hd e_def c_def dle_iff)
  next
    case (Suc k)
    from sorted_wrt_nth_less[OF T(4), of 0 i] i(1) Suc have "tai (lt ! i) < tai (lt ! 0)" by simp
    moreover have "Finite ta \<le> tai (lt ! i)" using upper(1) st(4) by (simp add: e_def c_def)
    ultimately have "Finite ta \<le> tai (lt ! 0)" by (rule order.strict_implies_order[OF order.strict_trans1[rotated]])
    then show ?thesis by (simp add: hd dle_iff)
  qed
  have sk: "seek tai (Finite ta) lt = Some e"
    unfolding e_def
  proof (rule seek_eq[OF T(4) i(1)])
    show "tai (lt ! Suc i) \<le> Finite ta" using lower st(3) by simp
    show "0 < i \<longrightarrow> Finite ta < tai (lt ! i)" using upper(2) st(4) by (simp add: e_def c_def)
  qed
  have sm: "Smear TAI lt (Finite ta) = Some (Interpolate_tai e (Finite ta))"
    using t0 th sk by (simp add: Smear_def FutureProofSmear_def ToTaiTime_TAI[OF tr] Let_def)
  have "\<not> (s = - 1 \<and> (a - n) mod 86400 = 43200)" if nt: "\<not> at_rounding_tie lt n"
  proof
    assume as: "s = - 1 \<and> (a - n) mod 86400 = 43200"
    then have "a - n \<noteq> 0" "a - n \<noteq> 345600000000000" by auto
    with w na(1) as have "a - 345600000000000 < n" "n < a" by auto
    with as st(1) em(1) have "at_rounding_tie lt n"
      unfolding at_rounding_tie_def list_ex_iff s_def by (intro bexI[of _ e]) simp_all
    with nt show False by simp
  qed
  with R(6) sm have "\<not> at_rounding_tie lt n \<longrightarrow> Smear TAI lt (Finite ta) = Some (Finite n)"
    by (simp add: ta_def)
  with un show ?thesis by blast
qed

lemma ten_seconds_no_tie:
  assumes N: "NewLeapTableFromProto proto = Some lt" and t: "40000000000 dvd n"
  shows "\<not> at_rounding_tie lt n"
proof
  assume "at_rounding_tie lt n"
  then obtain e where e0: "e \<in> set lt"
    "case utc e of Finite a \<Rightarrow> a - 345600000000000 < n \<and> n < a \<and> (a - n) mod 86400 = 43200
     | _ \<Rightarrow> False"
    unfolding at_rounding_tie_def list_ex_iff by blast
  then obtain a where e: "e \<in> set lt" "utc e = Finite a" "(a - n) mod 86400 = 43200"
    by (cases "utc e") auto
  from constructed_table(2)[OF N] e(1) have "entry_ok e" by blast
  with e(2) have "kHalfDay dvd a" by (auto simp: entry_ok_def key_ok_def)
  then have "3200 dvd a" unfolding kHalfDay_def by (rule dvd_trans[rotated]) simp
  moreover from t have "3200 dvd n" by (rule dvd_trans[rotated]) simp
  ultimately have "3200 dvd a - n" by (rule dvd_diff)
  moreover have "(3200::int) dvd 86400" by simp
  ultimately have "3200 dvd (a - n) mod 86400" by (simp add: dvd_mod)
  with e(3) show False by simp
qed

section \<open>Validation of the catalog\<close>

text \<open>
  C3 (as amended).  Construction succeeds only if \<open>end_jdn\<close> and every positive and negative
  leap day number lie within \<open>[kMinJdn, kMaxJdn] = [2441347, 5373483]\<close>, the Julian days that
  end at noon of 1972-01-31 and of 9999-12-31; outside that range construction fails.
\<close>

theorem jdn_range_enforced:
  assumes "NewLeapTableFromProto proto = Some lt"
  shows "2441347 \<le> end_jdn proto \<and> end_jdn proto \<le> 5373483 \<and>
         list_all (\<lambda>j. 2441347 \<le> j \<and> j \<le> 5373483) (positive_leaps proto @ negative_leaps proto)"
  using assms
  by (auto simp: NewLeapTableFromProto_def unsorted_entries_eq all_in_range_def kMinJdn_def
      kMaxJdn_def split: if_splits option.splits)

theorem jdn_range_enforced_witness:
  "NewLeapTableFromProto \<lparr>positive_leaps = [2441499], negative_leaps = [2441864],
                            end_jdn = 2441894\<rparr> \<noteq> None
   \<and> (2441347::int) \<le> 2441894 \<and> (2441894::int) \<le> 5373483
   \<and> list_all (\<lambda>j. 2441347 \<le> j \<and> j \<le> 5373483) [2441499, 2441864 :: int]"
proof -
  let ?p = "\<lparr>positive_leaps = [2441499], negative_leaps = [2441864], end_jdn = 2441894\<rparr>"
  have "NewLeapTableFromProto ?p \<noteq> None" by code_simp
  then obtain lt where h: "NewLeapTableFromProto ?p = Some lt" by auto
  from jdn_range_enforced[OF h] h show ?thesis by simp
qed

text \<open>
  The claim as stated gives the range as \<open>[2441348, 5373484]\<close>.  The catalog with no leap second
  and \<open>end_jdn = 2441347\<close> lies outside that range and is accepted.
\<close>

theorem jdn_range_counterexample:
  "end_jdn \<lparr>positive_leaps = [], negative_leaps = [], end_jdn = 2441347\<rparr> < 2441348
   \<and> NewLeapTableFromProto \<lparr>positive_leaps = [], negative_leaps = [], end_jdn = 2441347\<rparr> \<noteq> None"
  by code_simp

text \<open>
  C2 (as amended).  Construction succeeds only if the day after the next one, \<open>end_jdn + 2\<close>, is
  the first day of a month; the expiration of the constructed table is noon UTC of day
  \<open>end_jdn + 1\<close>, the last day of a month (24 hours before a first-of-month noon).
\<close>

theorem expiration_is_month_end_noon:
  assumes "NewLeapTableFromProto proto = Some lt"
  shows "tm_mday (ToTM (JdnToTime (end_jdn proto + 2))) = 1
         \<and> expiration lt = JdnToTime (end_jdn proto + 1)
         \<and> tm_hour (ToTM (expiration lt)) = 12"
proof -
  from assms have r: "kMinJdn \<le> end_jdn proto" "end_jdn proto \<le> kMaxJdn"
    and m: "tm_mday (ToTM (dplus (JdnToTime (end_jdn proto + 1)) (Hours 24))) = 1"
    by (auto simp: NewLeapTableFromProto_def split: if_splits)
  from assms obtain es where es: "unsorted_entries proto = Some es"
    and v: "validate (JdnToTime (end_jdn proto + 1)) (sort_desc es) = Some lt"
    by (auto simp: NewLeapTableFromProto_def split: if_splits option.splits)
  from es have "es \<noteq> []" by (auto simp: unsorted_entries_eq split: if_splits)
  then have "mset (sort_desc es) \<noteq> {#}" by (simp add: mset_sort_desc)
  then have "sort_desc es \<noteq> []" by auto
  from validate_hd[OF v this] have e: "expiration lt = JdnToTime (end_jdn proto + 1)"
    by (simp add: expiration_def)
  have d: "dplus (JdnToTime (end_jdn proto + 1)) (Hours 24) = JdnToTime (end_jdn proto + 1 + 1)"
    using r by (intro JdnToTime_plus_day) (auto simp: kMinJdn_def kMaxJdn_def)
  have "JdnToTime (end_jdn proto + 1) = Finite (noon_ticks (end_jdn proto + 1))"
    using r by (intro JdnToTime_Finite) (auto simp: kMinJdn_def kMaxJdn_def)
  then have h: "tm_hour (ToTM (JdnToTime (end_jdn proto + 1))) = 12"
    by (simp only: ToTM_noon) (simp split: prod.splits)
  from m d e h show ?thesis by (simp add: add.assoc)
qed

theorem expiration_is_month_end_noon_witness:
  "NewLeapTableFromProto \<lparr>positive_leaps = [2441499], negative_leaps = [], end_jdn = 2441529\<rparr>
     = Some [\<lparr>utc = Finite 325728000000000000, tai = Finite 1840492844000000000, smear = 0\<rparr>,
             \<lparr>utc = Finite 315360000000000000, tai = Finite 1830124844000000000, smear = 1\<rparr>,
             \<lparr>utc = Finite 315014400000000000, tai = Finite 1829779240000000000, smear = 0\<rparr>,
             \<lparr>utc = Finite 252288000000000000, tai = Finite 1767052840000000000, smear = 0\<rparr>]
   \<and> tm_mday (ToTM (JdnToTime (2441529 + 2))) = 1
   \<and> JdnToTime (2441529 + 1) = Finite 325728000000000000"
proof -
  let ?p = "\<lparr>positive_leaps = [2441499], negative_leaps = [], end_jdn = 2441529\<rparr>"
  let ?lt = "[\<lparr>utc = Finite 325728000000000000, tai = Finite 1840492844000000000, smear = 0\<rparr>,
             \<lparr>utc = Finite 315360000000000000, tai = Finite 1830124844000000000, smear = 1\<rparr>,
             \<lparr>utc = Finite 315014400000000000, tai = Finite 1829779240000000000, smear = 0\<rparr>,
             \<lparr>utc = Finite 252288000000000000, tai = Finite 1767052840000000000, smear = 0\<rparr>]"
  have h: "NewLeapTableFromProto ?p = Some ?lt" by code_simp
  from expiration_is_month_end_noon[OF h] h show ?thesis by (simp add: expiration_def)
qed

text \<open>
  The claim as stated asks that the day right after \<open>end_jdn\<close> be the first of a month.  For
  \<open>end_jdn = 2441347\<close> (1972-01-30) that day is the 31st of January, and the catalog is accepted.
\<close>

theorem expiration_first_of_month_counterexample:
  "NewLeapTableFromProto \<lparr>positive_leaps = [], negative_leaps = [], end_jdn = 2441347\<rparr> \<noteq> None
   \<and> ToTM (JdnToTime (2441347 + 1)) = \<lparr>tm_year = 72, tm_mon = 0, tm_mday = 31, tm_hour = 12\<rparr>"
  by code_simp

text \<open>
  C10.  A catalog in which some positive or negative leap day number equals \<open>end_jdn\<close> is
  rejected, although that leap is not later than \<open>end_jdn\<close>: the end of its smear coincides
  with the expiration, so the sorted vector holds two entries of the same \<open>utc\<close>.
\<close>

theorem leap_on_end_jdn_rejected:
  assumes "end_jdn proto \<in> set (positive_leaps proto) \<union> set (negative_leaps proto)"
  shows "NewLeapTableFromProto proto = None"
proof (cases "unsorted_entries proto")
  case None
  then show ?thesis by (simp add: NewLeapTableFromProto_def)
next
  case (Some es)
  then have es: "es = front_entry proto #
                 concat (map (leap_entries (- 1)) (rev (negative_leaps proto))) @
                 concat (map (leap_entries 1) (rev (positive_leaps proto))) @ [back_entry]"
    by (auto simp: unsorted_entries_eq split: if_splits)
  from assms have "utc (front_entry proto) \<in> utc ` set (tl es)"
    unfolding es by (auto simp: leap_entries_def front_entry_def image_Un image_UN)
  then have "\<not> distinct (map utc es)" unfolding es by auto
  from duplicate_utc_rejected[OF this mset_sort_desc sorted_sort_desc]
  show ?thesis using Some by (simp add: NewLeapTableFromProto_def)
qed

theorem leap_on_end_jdn_rejected_witness:
  "(2441498::int) \<in> set [2441498] \<union> set []
   \<and> NewLeapTableFromProto \<lparr>positive_leaps = [2441498], negative_leaps = [], end_jdn = 2441498\<rparr>
       = None"
  using leap_on_end_jdn_rejected
     [of "\<lparr>positive_leaps = [2441498], negative_leaps = [], end_jdn = 2441498\<rparr>"]
  by simp

section \<open>Serialization\<close>

lemma sorted_desc_unique:
  assumes "sorted_wrt (\<lambda>a b. utc b < utc a) xs" "sorted_wrt (\<lambda>a b. utc b \<le> utc a) ys"
    and "mset xs = mset ys"
  shows "xs = ys"
  using assms
proof (induction xs arbitrary: ys)
  case Nil
  then show ?case by simp
next
  case (Cons x xs)
  from Cons.prems(3) have "ys \<noteq> []" by auto
  then obtain y ys' where ys: "ys = y # ys'" by (cases ys) auto
  have xin: "x \<in> set ys" using Cons.prems(3) by (metis list.set_intros(1) mset_eq_setD)
  have yin: "y \<in> set (x # xs)" using Cons.prems(3) ys by (metis list.set_intros(1) mset_eq_setD)
  have "y = x"
  proof (rule ccontr)
    assume ne: "y \<noteq> x"
    with yin have "y \<in> set xs" by auto
    with Cons.prems(1) have "utc y < utc x" by auto
    moreover from ne xin ys have "x \<in> set ys'" by auto
    with Cons.prems(2) ys have "utc x \<le> utc y" by auto
    ultimately show False by simp
  qed
  with Cons.prems ys have "mset xs = mset ys'" by simp
  with Cons.IH[of ys'] Cons.prems ys \<open>y = x\<close> show ?case by simp
qed

lemma mset_concat_map_cong:
  assumes "mset xs = mset ys"
  shows "mset (concat (map f xs)) = mset (concat (map f ys))"
proof -
  have "mset (concat (map f zs)) = sum_mset (image_mset (\<lambda>z. mset (f z)) (mset zs))" for zs
    by (induction zs) auto
  then show ?thesis using assms by simp
qed

lemma leaps_of_leap_entries:
  assumes "\<forall>j \<in> set jdns. kMinJdn \<le> j \<and> j \<le> kMaxJdn" "sm \<noteq> 0"
  shows "map leap_day (filter (\<lambda>e. smear e = sm') (concat (map (leap_entries sm) jdns)))
         = (if sm' = sm then jdns else if sm' = 0 then map (\<lambda>j. j - 1) jdns else [])"
  using assms
proof (induction jdns)
  case Nil
  then show ?case by simp
next
  case (Cons j jdns)
  then have r: "2440588 \<le> j + 1" "j + 1 \<le> 2147483647" "2440588 \<le> j" "j \<le> 2147483647"
    by (auto simp: kMinJdn_def kMaxJdn_def)
  from Cons show ?case
    by (auto simp: leap_entries_def leap_day_def ToJdnInt_JdnToTime[OF r(1,2)]
        ToJdnInt_JdnToTime[OF r(3,4)])
qed


lemma leaps_by_key:
  "map leap_day (filter (\<lambda>e. smear e = s) xs)
   = map (\<lambda>k. ToJdnInt (fst k) - 1) (filter (\<lambda>k. snd k = s) (map entry_key xs))"
  by (induction xs) (auto simp: leap_day_def entry_key_def)

lemma leaps_mset_cong:
  assumes "mset (map entry_key xs) = mset (map entry_key ys)"
  shows "mset (map leap_day (filter (\<lambda>e. smear e = s) xs))
         = mset (map leap_day (filter (\<lambda>e. smear e = s) ys))"
proof -
  have "mset (map leap_day (filter (\<lambda>e. smear e = s) zs))
        = image_mset (\<lambda>k. ToJdnInt (fst k) - 1)
            (filter_mset (\<lambda>k. snd k = s) (mset (map entry_key zs)))" for zs
    unfolding leaps_by_key by (simp only: mset_map mset_filter)
  then show ?thesis by (simp only: assms)
qed

lemma entry_key_zip: "map entry_key xs = zip (map utc xs) (map smear xs)"
  by (induction xs) (simp_all add: entry_key_def)

lemma entry_key_eq:
  assumes "map utc xs = map utc ys" "map smear xs = map smear ys"
  shows "map entry_key xs = map entry_key ys"
  by (simp only: entry_key_zip assms)

lemma unsorted_leaps:
  assumes "unsorted_entries proto = Some es"
  shows "mset (map leap_day (filter (\<lambda>e. smear e = 1) es)) = mset (positive_leaps proto)"
    and "mset (map leap_day (filter (\<lambda>e. smear e = - 1) es)) = mset (negative_leaps proto)"
proof -
  from assms have r: "all_in_range proto"
    and es: "es = front_entry proto #
                 concat (map (leap_entries (- 1)) (rev (negative_leaps proto))) @
                 concat (map (leap_entries 1) (rev (positive_leaps proto))) @ [back_entry]"
    by (auto simp: unsorted_entries_eq split: if_splits)
  from r have rp: "\<forall>j \<in> set (rev (positive_leaps proto)). kMinJdn \<le> j \<and> j \<le> kMaxJdn"
    and rn: "\<forall>j \<in> set (rev (negative_leaps proto)). kMinJdn \<le> j \<and> j \<le> kMaxJdn"
    by (auto simp: all_in_range_def list_all_iff)
  have p1: "map leap_day (filter (\<lambda>e. smear e = 1) (concat (map (leap_entries 1) (rev (positive_leaps proto)))))
            = rev (positive_leaps proto)"
    using leaps_of_leap_entries[OF rp, of 1 1] by simp
  have p2: "map leap_day (filter (\<lambda>e. smear e = 1) (concat (map (leap_entries (- 1)) (rev (negative_leaps proto)))))
            = []"
    using leaps_of_leap_entries[OF rn, of "- 1" 1] by simp
  have n1: "map leap_day (filter (\<lambda>e. smear e = - 1) (concat (map (leap_entries 1) (rev (positive_leaps proto)))))
            = []"
    using leaps_of_leap_entries[OF rp, of 1 "- 1"] by simp
  have n2: "map leap_day (filter (\<lambda>e. smear e = - 1) (concat (map (leap_entries (- 1)) (rev (negative_leaps proto)))))
            = rev (negative_leaps proto)"
    using leaps_of_leap_entries[OF rn, of "- 1" "- 1"] by simp
  show "mset (map leap_day (filter (\<lambda>e. smear e = 1) es)) = mset (positive_leaps proto)"
    unfolding es by (simp add: p1 p2 front_entry_def back_entry_def)
  show "mset (map leap_day (filter (\<lambda>e. smear e = - 1) es)) = mset (negative_leaps proto)"
    unfolding es by (simp add: n1 n2 front_entry_def back_entry_def)
qed

lemma LeapTable_eq_iff: "LeapTable_eq a b \<longleftrightarrow> a = b"
  by (auto simp: LeapTable_eq_def list_eq_iff_nth_eq)

lemma ToProto_reconstructs:
  assumes N: "NewLeapTableFromProto proto = Some lt"
  shows "NewLeapTableFromProto (ToProto lt) = Some lt"
proof -
  let ?X = "JdnToTime (end_jdn proto + 1)"
  from N have R: "kMinJdn \<le> end_jdn proto" "end_jdn proto \<le> kMaxJdn"
    and M: "tm_mday (ToTM (dplus ?X (Hours 24))) = 1"
    by (auto simp: NewLeapTableFromProto_def split: if_splits)
  from N obtain es where U: "unsorted_entries proto = Some es"
    and V: "validate ?X (sort_desc es) = Some lt"
    by (auto simp: NewLeapTableFromProto_def split: if_splits option.splits)
  let ?ss = "sort_desc es"
  from U have AR: "all_in_range proto"
    and es: "es = front_entry proto #
                 concat (map (leap_entries (- 1)) (rev (negative_leaps proto))) @
                 concat (map (leap_entries 1) (rev (positive_leaps proto))) @ [back_entry]"
    by (auto simp: unsorted_entries_eq split: if_splits)
  have "mset ?ss \<noteq> {#}" unfolding mset_sort_desc es by simp
  then have ne: "?ss \<noteq> []" by auto
  from V have F: "fill_tai ?ss = Some lt" by (auto simp: validate_def split: if_splits)
  from fill_tai_keys[OF F] have K: "map entry_key lt = map entry_key ?ss"
    by (intro entry_key_eq) auto
  from validate_hd[OF V ne] have H: "utc (hd lt) = ?X" "smear (hd lt) = 0" by auto
  from fill_tai_keys[OF F] ne have ltne: "lt \<noteq> []" by auto
  have "ToJdnInt (JdnToTime (end_jdn proto + 1)) = end_jdn proto + 1"
    using R by (intro ToJdnInt_JdnToTime) (auto simp: kMinJdn_def kMaxJdn_def)
  then have E: "end_jdn (ToProto lt) = end_jdn proto"
    by (simp add: ToProto_def H)
  have "mset (map entry_key ?ss) = mset (map entry_key es)"
    by (simp add: mset_sort_desc)
  then have keys: "mset (map entry_key lt) = mset (map entry_key es)"
    by (simp only: K)
  have tl: "filter (\<lambda>e. smear e = s) (tl lt) = filter (\<lambda>e. smear e = s) lt" if "s \<noteq> 0" for s
    using ltne H(2) that by (cases lt) auto
  have LD: "leap_day = (\<lambda>e. ToJdnInt (utc e) - 1)"
    by (simp add: fun_eq_iff leap_day_def)
  have P: "mset (positive_leaps (ToProto lt)) = mset (positive_leaps proto)"
  proof -
    have "positive_leaps (ToProto lt) = rev (map leap_day (filter (\<lambda>e. smear e = 1) (tl lt)))"
      by (simp add: ToProto_def LD rev_map rev_filter)
    then have "mset (positive_leaps (ToProto lt)) = mset (map leap_day (filter (\<lambda>e. smear e = 1) (tl lt)))"
      by (simp only: mset_rev)
    also have "\<dots> = mset (map leap_day (filter (\<lambda>e. smear e = 1) es))"
      using leaps_mset_cong[OF keys] by (simp add: tl)
    finally show ?thesis using unsorted_leaps(1)[OF U] by simp
  qed
  have Q: "mset (negative_leaps (ToProto lt)) = mset (negative_leaps proto)"
  proof -
    have "negative_leaps (ToProto lt) = rev (map leap_day (filter (\<lambda>e. smear e = - 1) (tl lt)))"
      by (simp add: ToProto_def LD rev_map rev_filter)
    then have "mset (negative_leaps (ToProto lt)) = mset (map leap_day (filter (\<lambda>e. smear e = - 1) (tl lt)))"
      by (simp only: mset_rev)
    also have "\<dots> = mset (map leap_day (filter (\<lambda>e. smear e = - 1) es))"
      using leaps_mset_cong[OF keys] by (simp add: tl)
    finally show ?thesis using unsorted_leaps(2)[OF U] by simp
  qed
  have AR': "all_in_range (ToProto lt)"
    using AR mset_eq_setD[OF P] mset_eq_setD[OF Q] by (simp add: all_in_range_def list_all_iff)
  define es' where "es' = front_entry (ToProto lt) #
                 concat (map (leap_entries (- 1)) (rev (negative_leaps (ToProto lt)))) @
                 concat (map (leap_entries 1) (rev (positive_leaps (ToProto lt)))) @ [back_entry]"
  have U': "unsorted_entries (ToProto lt) = Some es'"
    using AR' by (simp add: unsorted_entries_eq es'_def)
  have cn: "mset (concat (map (leap_entries (- 1)) (rev (negative_leaps (ToProto lt)))))
            = mset (concat (map (leap_entries (- 1)) (rev (negative_leaps proto))))"
    by (rule mset_concat_map_cong) (simp add: Q)
  have cp: "mset (concat (map (leap_entries 1) (rev (positive_leaps (ToProto lt)))))
            = mset (concat (map (leap_entries 1) (rev (positive_leaps proto))))"
    by (rule mset_concat_map_cong) (simp add: P)
  have fe: "front_entry (ToProto lt) = front_entry proto"
    by (simp add: front_entry_def E)
  have "mset es' = mset es"
    unfolding es es'_def by (simp only: mset.simps mset_append cn cp fe)
  then have "mset ?ss = mset (sort_desc es')" by (simp add: mset_sort_desc)
  from sorted_desc_unique[OF validate_strict[OF V sorted_sort_desc] sorted_sort_desc this]
  have S: "sort_desc es' = ?ss" by simp
  have "NewLeapTableFromProto (ToProto lt) = validate ?X (sort_desc es')"
    using R M by (simp add: NewLeapTableFromProto_def E U')
  then show ?thesis
    by (simp only: S V)
qed

text \<open>
  C5.  For every constructible table \<open>L\<close>, constructing a table from the protobuf that
  \<^verbatim>\<open>L.ToProto()\<close> emits succeeds and yields a table equal to \<open>L\<close> under
  \<^verbatim>\<open>operator==\<close>, the elementwise equality of \<open>(utc, tai, smear)\<close>.
\<close>

theorem ToProto_round_trip:
  assumes "NewLeapTableFromProto proto = Some lt"
  shows "\<exists>lt'. NewLeapTableFromProto (ToProto lt) = Some lt' \<and> LeapTable_eq lt' lt"
  using ToProto_reconstructs[OF assms] by (simp add: LeapTable_eq_iff)

theorem ToProto_round_trip_witness:
  "NewLeapTableFromProto \<lparr>positive_leaps = [2441864, 2441499], negative_leaps = [2442048],
                            end_jdn = 2442078\<rparr> \<noteq> None
   \<and> (\<exists>lt lt'. NewLeapTableFromProto \<lparr>positive_leaps = [2441864, 2441499],
                            negative_leaps = [2442048], end_jdn = 2442078\<rparr> = Some lt
         \<and> ToProto lt = \<lparr>positive_leaps = [2441499, 2441864], negative_leaps = [2442048],
                            end_jdn = 2442078\<rparr>
         \<and> NewLeapTableFromProto (ToProto lt) = Some lt' \<and> LeapTable_eq lt' lt)"
proof -
  let ?p = "\<lparr>positive_leaps = [2441864, 2441499], negative_leaps = [2442048],
             end_jdn = 2442078\<rparr>"
  have n: "NewLeapTableFromProto ?p \<noteq> None" by code_simp
  then obtain lt where h: "NewLeapTableFromProto ?p = Some lt" by auto
  have "map_option ToProto (NewLeapTableFromProto ?p)
        = Some \<lparr>positive_leaps = [2441499, 2441864], negative_leaps = [2442048],
                 end_jdn = 2442078\<rparr>"
    by code_simp
  with h have t: "ToProto lt = \<lparr>positive_leaps = [2441499, 2441864], negative_leaps = [2442048],
                             end_jdn = 2442078\<rparr>"
    by simp
  from ToProto_round_trip[OF h] n h t show ?thesis by blast
qed

section \<open>The zone specifier of a format\<close>

lemma format_step_acc:
  "format_step ts c (s, b) =
     (s @ fst (format_step ts c ([], b)), snd (format_step ts c ([], b)))"
  by (simp add: format_step_def)

lemma fold_format_step_acc:
  "fold (format_step ts) cs (s, b) =
     (s @ fst (fold (format_step ts) cs ([], b)), snd (fold (format_step ts) cs ([], b)))"
proof (induction cs arbitrary: s b)
  case Nil
  then show ?case by simp
next
  case (Cons c cs)
  obtain x b' where st: "format_step ts c ([], b) = (x, b')" by force
  then have st2: "format_step ts c (s, b) = (s @ x, b')"
    using format_step_acc[of ts c s b] by simp
  show ?case
    using Cons.IH[of "s @ x" b'] Cons.IH[of x b'] by (simp add: st st2)
qed

lemma replace_zone_loop: "replace_zone ts format = loop_result ts format ([], False)"
  by (simp add: replace_zone_def loop_result_def)

lemma loop_result_Nil: "loop_result ts [] (s, b) = (if b then s @ [CHR ''%''] else s)"
  by (simp add: loop_result_def)

lemma loop_result_Cons: "loop_result ts (c # cs) st = loop_result ts cs (format_step ts c st)"
  by (simp add: loop_result_def)

lemma loop_result_acc: "loop_result ts cs (s, b) = s @ loop_result ts cs ([], b)"
  unfolding loop_result_def
  by (subst fold_format_step_acc) (simp add: Let_def split: prod.splits)

lemma replace_zone_refines: "replace_zone ts format = substitute_zone ts format"
proof (induction format rule: specifiers.induct)
  case 1
  then show ?case by (simp add: replace_zone_def substitute_zone_def)
next
  case (2 c)
  then show ?case by (simp add: replace_zone_def substitute_zone_def format_step_def)
next
  case (3 c c' cs)
  show ?case
  proof (cases "c = CHR ''%''")
    case True
    have "replace_zone ts (c # c' # cs)
          = loop_result ts cs (if c' = CHR ''Z'' then ZoneName ts else [c, c'], False)"
      using True by (simp add: replace_zone_loop loop_result_Cons format_step_def)
    also have "\<dots> = (if c' = CHR ''Z'' then ZoneName ts else [c, c']) @ replace_zone ts cs"
      by (simp only: loop_result_acc[of ts cs "if c' = CHR ''Z'' then ZoneName ts else [c, c']"]
          replace_zone_loop)
    finally show ?thesis using 3 True by (auto simp: substitute_zone_def)
  next
    case False
    have "replace_zone ts (c # c' # cs) = loop_result ts (c' # cs) ([c], False)"
      using False by (simp add: replace_zone_loop loop_result_Cons format_step_def)
    also have "\<dots> = [c] @ replace_zone ts (c' # cs)"
      by (simp only: loop_result_acc[of ts "c' # cs" "[c]"] replace_zone_loop)
    finally show ?thesis using 3 False by (auto simp: substitute_zone_def)
  qed
qed

text \<open>
  C9.  For every finite time of either timescale and every format string, \<^verbatim>\<open>FormatTime\<close> hands
  to the underlying formatter the format in which each specifier \<^verbatim>\<open>%Z\<close> is replaced by the
  label of the timescale (\<^verbatim>\<open>TAI\<close> or \<^verbatim>\<open>GPST\<close>) and everything else is kept; in particular
  the escaped sequence \<^verbatim>\<open>%%Z\<close> is passed through as it is.
\<close>

theorem FormatTime_substitutes_zone:
  "FormatTime absl_FormatTime ts format (Finite n)
     = absl_FormatTime (substitute_zone ts format) (ToUnixTime ts (Finite n))
   \<and> ZoneName TAI = ''TAI'' \<and> ZoneName GPST = ''GPST''
   \<and> replace_zone ts (''%Z'' @ rest) = ZoneName ts @ replace_zone ts rest
   \<and> replace_zone ts (''%%Z'' @ rest) = ''%%Z'' @ replace_zone ts rest"
proof -
  have "specifiers (CHR ''Z'' # rest) = ''Z'' # specifiers rest"
    by (cases rest) auto
  then have "substitute_zone ts (''%%Z'' @ rest) = ''%%Z'' @ substitute_zone ts rest"
    by (simp add: substitute_zone_def)
  moreover have "substitute_zone ts (''%Z'' @ rest) = ZoneName ts @ substitute_zone ts rest"
    by (simp add: substitute_zone_def)
  ultimately show ?thesis
    by (simp add: FormatTime_def replace_zone_refines)
qed

text \<open>The format of the repository's own test (time\_test.cc).\<close>

lemma replace_zone_test_format:
  "replace_zone TAI ''%Y %V %Z %% %%% %%Z %'' = ''%Y %V TAI %% %%% %%Z %''"
  by code_simp

section \<open>Availability of the smeared time\<close>

text \<open>
  C4.  \<^verbatim>\<open>Smear\<close> of a finite time \<open>t\<close>, on either timescale, for a table that
  \<^verbatim>\<open>NewLeapTableFromProto\<close> constructed.  The code first refuses every \<open>t\<close> before the epoch
  of its own timescale (a negative \<open>t\<close>: before 1958-01-01 for TAI, before 1980-01-06 for GPS);
  then it converts \<open>t\<close> to TAI, refuses it when that lies before the \<open>tai\<close> of the last entry
  (the modern UTC epoch), and converts it by interpolation in its segment \<open>i\<close>, the one with
  \<open>E(i+1).tai \<le> TAI \<le> E(i).tai\<close>, when it lies between the last entry's \<open>tai\<close> and the
  expiration entry's \<open>tai\<close>.
\<close>

theorem Smear_availability:
  assumes "NewLeapTableFromProto proto = Some lt"
  shows "(dless (Finite n) ZeroDuration \<longrightarrow> Smear ts lt (Finite n) = None)
       \<and> (\<not> dless (Finite n) ZeroDuration \<and> dless (ToTaiTime ts (Finite n)) (tai (last lt))
            \<longrightarrow> Smear ts lt (Finite n) = None)
       \<and> (\<not> dless (Finite n) ZeroDuration \<and> dle (tai (last lt)) (ToTaiTime ts (Finite n))
            \<and> dle (ToTaiTime ts (Finite n)) (tai (hd lt))
            \<longrightarrow> (\<exists>i. Suc i < length lt
                   \<and> dle (tai (lt ! Suc i)) (ToTaiTime ts (Finite n))
                   \<and> dle (ToTaiTime ts (Finite n)) (tai (lt ! i))
                   \<and> Smear ts lt (Finite n)
                       = Some (Interpolate_tai (lt ! i) (ToTaiTime ts (Finite n)))))
       \<and> tai (last lt) = TaiModernUtcEpoch"
  using Smear_cases[OF assms, of n ts] constructed_table(5)[OF assms]
  by (simp add: tai_back_entry)

theorem Smear_availability_witness:
  "\<exists>lt. NewLeapTableFromProto
           \<lparr>positive_leaps = [2441499], negative_leaps = [], end_jdn = 2441529\<rparr> = Some lt
     \<and> dless (Finite (- 1)) ZeroDuration
     \<and> Smear TAI lt (Finite (- 1)) = None
     \<and> \<not> dless (Finite 0) ZeroDuration
     \<and> dless (ToTaiTime TAI (Finite 0)) (tai (last lt))
     \<and> Smear TAI lt (Finite 0) = None
     \<and> \<not> dless (Finite 1830124842000000000) ZeroDuration
     \<and> dle (tai (last lt)) (ToTaiTime TAI (Finite 1830124842000000000))
     \<and> dle (ToTaiTime TAI (Finite 1830124842000000000)) (tai (hd lt))
     \<and> (\<exists>i. Suc i < length lt
            \<and> dle (tai (lt ! Suc i)) (ToTaiTime TAI (Finite 1830124842000000000))
            \<and> dle (ToTaiTime TAI (Finite 1830124842000000000)) (tai (lt ! i))
            \<and> Smear TAI lt (Finite 1830124842000000000)
                = Some (Interpolate_tai (lt ! i) (ToTaiTime TAI (Finite 1830124842000000000))))"
proof -
  let ?lt = "[\<lparr>utc = Finite 325728000000000000, tai = Finite 1840492844000000000, smear = 0\<rparr>,
              \<lparr>utc = Finite 315360000000000000, tai = Finite 1830124844000000000, smear = 1\<rparr>,
              \<lparr>utc = Finite 315014400000000000, tai = Finite 1829779240000000000, smear = 0\<rparr>,
              \<lparr>utc = Finite 252288000000000000, tai = Finite 1767052840000000000, smear = 0\<rparr>]"
  have h: "NewLeapTableFromProto
             \<lparr>positive_leaps = [2441499], negative_leaps = [], end_jdn = 2441529\<rparr> = Some ?lt"
    by code_simp
  have a: "dless (Finite (- 1)) ZeroDuration" by code_simp
  have b: "\<not> dless (Finite 0) ZeroDuration \<and> dless (ToTaiTime TAI (Finite 0)) (tai (last ?lt))"
    by code_simp
  have c: "\<not> dless (Finite 1830124842000000000) ZeroDuration
           \<and> dle (tai (last ?lt)) (ToTaiTime TAI (Finite 1830124842000000000))
           \<and> dle (ToTaiTime TAI (Finite 1830124842000000000)) (tai (hd ?lt))"
    by code_simp
  from Smear_availability[OF h, of "- 1" TAI] a
  have 1: "Smear TAI ?lt (Finite (- 1)) = None" by blast
  from Smear_availability[OF h, of 0 TAI] b
  have 2: "Smear TAI ?lt (Finite 0) = None" by blast
  from Smear_availability[OF h, of 1830124842000000000 TAI] c
  have 3: "\<exists>i. Suc i < length ?lt
            \<and> dle (tai (?lt ! Suc i)) (ToTaiTime TAI (Finite 1830124842000000000))
            \<and> dle (ToTaiTime TAI (Finite 1830124842000000000)) (tai (?lt ! i))
            \<and> Smear TAI ?lt (Finite 1830124842000000000)
                = Some (Interpolate_tai (?lt ! i) (ToTaiTime TAI (Finite 1830124842000000000)))"
    by blast
  from h a b c 1 2 3 show ?thesis by blast
qed

text \<open>
  The time one second before the GPS epoch, 1980-01-05 23:59:59 GPST, is 1980-01-06 00:00:18
  TAI, inside the table that expires at noon of 1984-12-31; as a \<^verbatim>\<open>GpsTime\<close> it is not
  smeared, as a \<^verbatim>\<open>TaiTime\<close> it is.
\<close>

theorem Smear_before_gps_epoch_counterexample:
  "NewLeapTableFromProto \<lparr>positive_leaps = [], negative_leaps = [], end_jdn = 2446065\<rparr>
     = Some [\<lparr>utc = Finite 1893369600000000000, tai = Finite 3408134440000000000, smear = 0\<rparr>,
             \<lparr>utc = Finite 252288000000000000, tai = Finite 1767052840000000000, smear = 0\<rparr>]
   \<and> ToTaiTime GPST (Seconds (- 1)) = Finite 2778624072000000000
   \<and> dle (Finite 1767052840000000000) (ToTaiTime GPST (Seconds (- 1)))
   \<and> dle (ToTaiTime GPST (Seconds (- 1))) (Finite 3408134440000000000)
   \<and> Smear GPST
        [\<lparr>utc = Finite 1893369600000000000, tai = Finite 3408134440000000000, smear = 0\<rparr>,
         \<lparr>utc = Finite 252288000000000000, tai = Finite 1767052840000000000, smear = 0\<rparr>]
        (Seconds (- 1)) = None
   \<and> Smear TAI
        [\<lparr>utc = Finite 1893369600000000000, tai = Finite 3408134440000000000, smear = 0\<rparr>,
         \<lparr>utc = Finite 252288000000000000, tai = Finite 1767052840000000000, smear = 0\<rparr>]
        (Finite 2778624072000000000) = Some (Finite 1263859232000000000)"
  by code_simp

text \<open>
  Past the expiration entry's \<open>tai\<close> the two ends of the interval of \<^verbatim>\<open>FutureProofSmear\<close>
  differ by the scaled fraction of a second, which rounds to nothing for the first 10.8
  microseconds: there \<^verbatim>\<open>Smear\<close> still returns a time.
\<close>

lemma Smear_just_past_expiration:
  "Smear TAI
     [\<lparr>utc = Finite 325728000000000000, tai = Finite 1840492844000000000, smear = 0\<rparr>,
      \<lparr>utc = Finite 315360000000000000, tai = Finite 1830124844000000000, smear = 1\<rparr>,
      \<lparr>utc = Finite 315014400000000000, tai = Finite 1829779240000000000, smear = 0\<rparr>,
      \<lparr>utc = Finite 252288000000000000, tai = Finite 1767052840000000000, smear = 0\<rparr>]
     (Finite (1840492844000000000 + 1)) = Some (Finite (325728000000000000 + 1))
   \<and> Smear TAI
     [\<lparr>utc = Finite 325728000000000000, tai = Finite 1840492844000000000, smear = 0\<rparr>,
      \<lparr>utc = Finite 315360000000000000, tai = Finite 1830124844000000000, smear = 1\<rparr>,
      \<lparr>utc = Finite 315014400000000000, tai = Finite 1829779240000000000, smear = 0\<rparr>,
      \<lparr>utc = Finite 252288000000000000, tai = Finite 1767052840000000000, smear = 0\<rparr>]
     (Finite (1840492844000000000 + 43200)) = None"
  by code_simp

section \<open>Two days past the expiration\<close>

text \<open>
  C6.  For every table that \<^verbatim>\<open>NewLeapTableFromProto\<close> constructed, \<^verbatim>\<open>Unsmear\<close> of the
  expiration is a finite TAI time, and \<^verbatim>\<open>FutureProofUnsmear\<close> of the expiration plus 48 hours
  is the interval from one second before to one second after that TAI time plus 48 hours.
  (The expiration is noon of the last day of a month; 48 hours later it is noon of the second
  day of the next month, one month-end has passed and no smear is under way.)
\<close>

theorem FutureProofUnsmear_two_days_past_expiration:
  assumes "NewLeapTableFromProto proto = Some lt"
  shows "\<exists>c. Unsmear lt (expiration lt) = Some (Finite c)
           \<and> FutureProofUnsmear lt (dplus (expiration lt) (Hours 48))
               = (dminus (dplus (Finite c) (Hours 48)) (Seconds 1),
                  dplus (dplus (Finite c) (Hours 48)) (Seconds 1))
           \<and> dminus (dplus (Finite c) (Hours 48)) (Seconds 1)
               = Finite (c + 48 * 3600 * kTicksPerSecond - kTicksPerSecond)
           \<and> dplus (dplus (Finite c) (Hours 48)) (Seconds 1)
               = Finite (c + 48 * 3600 * kTicksPerSecond + kTicksPerSecond)"
proof -
  note T = constructed_table[OF assms]
  from T(1) have "hd lt \<in> set lt" by (cases lt) auto
  with T(2) have "entry_ok (hd lt)" by blast
  then obtain c where c: "tai (hd lt) = Finite c" "0 \<le> c" "c \<le> 1100000000000000000000"
    by (rule entry_ok_Finite) auto
  have "dminus (dplus (Finite c) (Hours 48)) (Seconds 1)
          = Finite (c + 48 * 3600 * kTicksPerSecond - kTicksPerSecond)"
    "dplus (dplus (Finite c) (Hours 48)) (Seconds 1)
          = Finite (c + 48 * 3600 * kTicksPerSecond + kTicksPerSecond)"
    using c(2,3)
    by (simp_all add: Hours_def Seconds_def kint64max_def kTicksPerSecond_def representable_small)
  with two_days_after_expiration[OF assms] c(1) show ?thesis by simp
qed

theorem FutureProofUnsmear_two_days_past_expiration_witness:
  "\<exists>lt. NewLeapTableFromProto
           \<lparr>positive_leaps = [2441499], negative_leaps = [], end_jdn = 2441529\<rparr> = Some lt
     \<and> Unsmear lt (expiration lt) = Some (Finite 1840492844000000000)
     \<and> FutureProofUnsmear lt (dplus (expiration lt) (Hours 48))
         = (dminus (dplus (Finite 1840492844000000000) (Hours 48)) (Seconds 1),
            dplus (dplus (Finite 1840492844000000000) (Hours 48)) (Seconds 1))
     \<and> FutureProofUnsmear lt (dplus (expiration lt) (Hours 48))
         = (Finite 1841184040000000000, Finite 1841184048000000000)"
proof -
  let ?lt = "[\<lparr>utc = Finite 325728000000000000, tai = Finite 1840492844000000000, smear = 0\<rparr>,
              \<lparr>utc = Finite 315360000000000000, tai = Finite 1830124844000000000, smear = 1\<rparr>,
              \<lparr>utc = Finite 315014400000000000, tai = Finite 1829779240000000000, smear = 0\<rparr>,
              \<lparr>utc = Finite 252288000000000000, tai = Finite 1767052840000000000, smear = 0\<rparr>]"
  have h: "NewLeapTableFromProto
             \<lparr>positive_leaps = [2441499], negative_leaps = [], end_jdn = 2441529\<rparr> = Some ?lt"
    by code_simp
  have u: "Unsmear ?lt (expiration ?lt) = Some (Finite 1840492844000000000)" by code_simp
  have v: "(dminus (dplus (Finite 1840492844000000000) (Hours 48)) (Seconds 1),
            dplus (dplus (Finite 1840492844000000000) (Hours 48)) (Seconds 1))
           = (Finite 1841184040000000000, Finite 1841184048000000000)"
    by code_simp
  from FutureProofUnsmear_two_days_past_expiration[OF h] u
  have "FutureProofUnsmear ?lt (dplus (expiration ?lt) (Hours 48))
         = (dminus (dplus (Finite 1840492844000000000) (Hours 48)) (Seconds 1),
            dplus (dplus (Finite 1840492844000000000) (Hours 48)) (Seconds 1))"
    by auto
  with h u v show ?thesis by (intro exI[of _ ?lt]) simp
qed

section \<open>Conversions past the expiration\<close>

text \<open>
  C7.  Through the first hypothetical smear window after the expiration the half-width of the
  interval of \<^verbatim>\<open>FutureProofUnsmear\<close> should grow by 250 ms every six hours.  The table that
  expires at noon of 2000-02-29 (\<open>end_jdn = 2451603\<close>) shows that the code does not do so for
  every table: \<^verbatim>\<open>IsJustBeforeMonthEnd\<close> applies the leap-year rule to \<^verbatim>\<open>tm_year\<close>, the years
  since 1900, takes February 2000 to have 28 days, and \<^verbatim>\<open>Advance\<close> sees no smear window;
  six hours after the expiration the interval has width zero.
\<close>

theorem no_widening_after_february_2000:
  "NewLeapTableFromProto \<lparr>positive_leaps = [], negative_leaps = [], end_jdn = 2451603\<rparr>
     = Some [\<lparr>utc = Finite 3807302400000000000, tai = Finite 5322067240000000000, smear = 0\<rparr>,
             \<lparr>utc = Finite 252288000000000000, tai = Finite 1767052840000000000, smear = 0\<rparr>]
   \<and> ToTM (dplus (Finite 3807302400000000000) (Hours 6))
       = \<lparr>tm_year = 100, tm_mon = 1, tm_mday = 29, tm_hour = 18\<rparr>
   \<and> FutureProofUnsmear
        [\<lparr>utc = Finite 3807302400000000000, tai = Finite 5322067240000000000, smear = 0\<rparr>,
         \<lparr>utc = Finite 252288000000000000, tai = Finite 1767052840000000000, smear = 0\<rparr>]
        (dplus (Finite 3807302400000000000) (Hours 6))
       = (dplus (Finite 5322067240000000000) (Hours 6),
          dplus (Finite 5322067240000000000) (Hours 6))"
  by code_simp

text \<open>The month-end test on 2000-02-29 18:00, which is within twelve hours of the month's end.\<close>

lemma month_end_missed_on_2000_02_29:
  "IsJustBeforeMonthEnd \<lparr>tm_year = 100, tm_mon = 1, tm_mday = 29, tm_hour = 18\<rparr> = False"
  by code_simp

section \<open>The round trip\<close>

text \<open>
  C1.  For every table that \<^verbatim>\<open>NewLeapTableFromProto\<close> constructed and every finite UTC time
  \<open>t\<close> from the modern UTC epoch to the expiration, \<^verbatim>\<open>Unsmear(t)\<close> succeeds, and
  \<^verbatim>\<open>Smear(Unsmear(t))\<close> gives \<open>t\<close> back unless \<open>t\<close> is at a tie of the rounding in the smear
  window of a negative leap second (\<open>at_rounding_tie\<close>: 43200 ticks plus a whole multiple of
  86400 ticks before the end of the window).  In particular the round trip is exact in every
  table without an entry of smear \<open>-1\<close>, and for every \<open>t\<close> that is a whole multiple of ten
  seconds (\<open>4 * 10^10\<close> ticks), such as sample points at 10 s intervals through a smear window.
\<close>

theorem round_trip_inside_table:
  assumes "NewLeapTableFromProto proto = Some lt"
    and "dle ModernUtcEpoch (Finite n)" and "dle (Finite n) (expiration lt)"
  shows "\<exists>ta. Unsmear lt (Finite n) = Some ta
           \<and> (\<not> at_rounding_tie lt n \<longrightarrow> Smear TAI lt ta = Some (Finite n))
           \<and> (list_all (\<lambda>e. smear e \<noteq> - 1) lt \<longrightarrow> Smear TAI lt ta = Some (Finite n))
           \<and> (40000000000 dvd n \<longrightarrow> Smear TAI lt ta = Some (Finite n))"
proof -
  from round_trip_in_table[OF assms] obtain ta where ta: "Unsmear lt (Finite n) = Some ta"
    "\<not> at_rounding_tie lt n \<longrightarrow> Smear TAI lt ta = Some (Finite n)"
    by blast
  have "\<not> at_rounding_tie lt n" if "list_all (\<lambda>e. smear e \<noteq> - 1) lt"
    using that unfolding at_rounding_tie_def list_ex_iff list_all_iff by blast
  moreover have "\<not> at_rounding_tie lt n" if "40000000000 dvd n"
    using assms(1) that by (rule ten_seconds_no_tie)
  ultimately show ?thesis using ta by blast
qed

theorem round_trip_inside_table_witness:
  "(\<exists>lt ta. NewLeapTableFromProto
               \<lparr>positive_leaps = [], negative_leaps = [2441499], end_jdn = 2441529\<rparr> = Some lt
        \<and> dle ModernUtcEpoch (Finite 315359999999956799)
        \<and> dle (Finite 315359999999956799) (expiration lt)
        \<and> \<not> at_rounding_tie lt 315359999999956799
        \<and> Unsmear lt (Finite 315359999999956799) = Some ta
        \<and> Smear TAI lt ta = Some (Finite 315359999999956799))
   \<and> (\<exists>lt ta. NewLeapTableFromProto
               \<lparr>positive_leaps = [], negative_leaps = [2441499], end_jdn = 2441529\<rparr> = Some lt
        \<and> dle ModernUtcEpoch (Finite 315356000000000000)
        \<and> dle (Finite 315356000000000000) (expiration lt)
        \<and> (40000000000::int) dvd 315356000000000000
        \<and> Unsmear lt (Finite 315356000000000000) = Some ta
        \<and> Smear TAI lt ta = Some (Finite 315356000000000000))
   \<and> (\<exists>lt ta. NewLeapTableFromProto
               \<lparr>positive_leaps = [2441499], negative_leaps = [], end_jdn = 2441529\<rparr> = Some lt
        \<and> dle ModernUtcEpoch (Finite 315359999999956800)
        \<and> dle (Finite 315359999999956800) (expiration lt)
        \<and> list_all (\<lambda>e. smear e \<noteq> - 1) lt
        \<and> Unsmear lt (Finite 315359999999956800) = Some ta
        \<and> Smear TAI lt ta = Some (Finite 315359999999956800))"
proof -
  let ?A = "[\<lparr>utc = Finite 325728000000000000, tai = Finite 1840492836000000000, smear = 0\<rparr>,
             \<lparr>utc = Finite 315360000000000000, tai = Finite 1830124836000000000, smear = - 1\<rparr>,
             \<lparr>utc = Finite 315014400000000000, tai = Finite 1829779240000000000, smear = 0\<rparr>,
             \<lparr>utc = Finite 252288000000000000, tai = Finite 1767052840000000000, smear = 0\<rparr>]"
  let ?B = "[\<lparr>utc = Finite 325728000000000000, tai = Finite 1840492844000000000, smear = 0\<rparr>,
             \<lparr>utc = Finite 315360000000000000, tai = Finite 1830124844000000000, smear = 1\<rparr>,
             \<lparr>utc = Finite 315014400000000000, tai = Finite 1829779240000000000, smear = 0\<rparr>,
             \<lparr>utc = Finite 252288000000000000, tai = Finite 1767052840000000000, smear = 0\<rparr>]"
  have hA: "NewLeapTableFromProto
              \<lparr>positive_leaps = [], negative_leaps = [2441499], end_jdn = 2441529\<rparr> = Some ?A"
    by code_simp
  have hB: "NewLeapTableFromProto
              \<lparr>positive_leaps = [2441499], negative_leaps = [], end_jdn = 2441529\<rparr> = Some ?B"
    by code_simp
  have a1: "dle ModernUtcEpoch (Finite 315359999999956799)"
    and a2: "dle (Finite 315359999999956799) (expiration ?A)"
    and a3: "\<not> at_rounding_tie ?A 315359999999956799"
    by code_simp+
  have b1: "dle ModernUtcEpoch (Finite 315356000000000000)"
    and b2: "dle (Finite 315356000000000000) (expiration ?A)"
    and b3: "(40000000000::int) dvd 315356000000000000"
    by code_simp+
  have c1: "dle ModernUtcEpoch (Finite 315359999999956800)"
    and c2: "dle (Finite 315359999999956800) (expiration ?B)"
    and c3: "list_all (\<lambda>e. smear e \<noteq> - 1) ?B"
    by code_simp+
  from round_trip_inside_table[OF hA a1 a2] a3
  have 1: "\<exists>ta. Unsmear ?A (Finite 315359999999956799) = Some ta
             \<and> Smear TAI ?A ta = Some (Finite 315359999999956799)"
    by blast
  from round_trip_inside_table[OF hA b1 b2] b3
  have 2: "\<exists>ta. Unsmear ?A (Finite 315356000000000000) = Some ta
             \<and> Smear TAI ?A ta = Some (Finite 315356000000000000)"
    by blast
  from round_trip_inside_table[OF hB c1 c2] c3
  have 3: "\<exists>ta. Unsmear ?B (Finite 315359999999956800) = Some ta
             \<and> Smear TAI ?B ta = Some (Finite 315359999999956800)"
    by blast
  from hA a1 a2 a3 1 have "\<exists>lt ta. NewLeapTableFromProto
               \<lparr>positive_leaps = [], negative_leaps = [2441499], end_jdn = 2441529\<rparr> = Some lt
        \<and> dle ModernUtcEpoch (Finite 315359999999956799)
        \<and> dle (Finite 315359999999956799) (expiration lt)
        \<and> \<not> at_rounding_tie lt 315359999999956799
        \<and> Unsmear lt (Finite 315359999999956799) = Some ta
        \<and> Smear TAI lt ta = Some (Finite 315359999999956799)"
    by blast
  moreover from hA b1 b2 b3 2 have "\<exists>lt ta. NewLeapTableFromProto
               \<lparr>positive_leaps = [], negative_leaps = [2441499], end_jdn = 2441529\<rparr> = Some lt
        \<and> dle ModernUtcEpoch (Finite 315356000000000000)
        \<and> dle (Finite 315356000000000000) (expiration lt)
        \<and> (40000000000::int) dvd 315356000000000000
        \<and> Unsmear lt (Finite 315356000000000000) = Some ta
        \<and> Smear TAI lt ta = Some (Finite 315356000000000000)"
    by blast
  moreover from hB c1 c2 c3 3 have "\<exists>lt ta. NewLeapTableFromProto
               \<lparr>positive_leaps = [2441499], negative_leaps = [], end_jdn = 2441529\<rparr> = Some lt
        \<and> dle ModernUtcEpoch (Finite 315359999999956800)
        \<and> dle (Finite 315359999999956800) (expiration lt)
        \<and> list_all (\<lambda>e. smear e \<noteq> - 1) lt
        \<and> Unsmear lt (Finite 315359999999956800) = Some ta
        \<and> Smear TAI lt ta = Some (Finite 315359999999956800)"
    by blast
  ultimately show ?thesis by blast
qed

text \<open>
  At a tie the round trip misses by one tick (a quarter of a nanosecond).  For the table with one
  negative leap on day 2441499 and the time 10.8 microseconds (43200 ticks) before noon of
  1972-07-01, the end of the smear window, unsmearing rounds the correction of half a tick up to
  one tick, and smearing the result rounds the correction down to zero: the result is one tick
  after \<open>t\<close>.  The time one tick after \<open>t\<close> unsmears to the same TAI time, so that no smearing
  could give both back.
\<close>

theorem round_trip_counterexample:
  "NewLeapTableFromProto \<lparr>positive_leaps = [], negative_leaps = [2441499], end_jdn = 2441529\<rparr>
     = Some [\<lparr>utc = Finite 325728000000000000, tai = Finite 1840492836000000000, smear = 0\<rparr>,
             \<lparr>utc = Finite 315360000000000000, tai = Finite 1830124836000000000, smear = - 1\<rparr>,
             \<lparr>utc = Finite 315014400000000000, tai = Finite 1829779240000000000, smear = 0\<rparr>,
             \<lparr>utc = Finite 252288000000000000, tai = Finite 1767052840000000000, smear = 0\<rparr>]
   \<and> dle ModernUtcEpoch (Finite (315360000000000000 - 43200))
   \<and> dle (Finite (315360000000000000 - 43200)) (Finite 325728000000000000)
   \<and> Unsmear
        [\<lparr>utc = Finite 325728000000000000, tai = Finite 1840492836000000000, smear = 0\<rparr>,
         \<lparr>utc = Finite 315360000000000000, tai = Finite 1830124836000000000, smear = - 1\<rparr>,
         \<lparr>utc = Finite 315014400000000000, tai = Finite 1829779240000000000, smear = 0\<rparr>,
         \<lparr>utc = Finite 252288000000000000, tai = Finite 1767052840000000000, smear = 0\<rparr>]
        (Finite (315360000000000000 - 43200))
       = Some (Finite (1830124836000000000 - 43199))
   \<and> Smear TAI
        [\<lparr>utc = Finite 325728000000000000, tai = Finite 1840492836000000000, smear = 0\<rparr>,
         \<lparr>utc = Finite 315360000000000000, tai = Finite 1830124836000000000, smear = - 1\<rparr>,
         \<lparr>utc = Finite 315014400000000000, tai = Finite 1829779240000000000, smear = 0\<rparr>,
         \<lparr>utc = Finite 252288000000000000, tai = Finite 1767052840000000000, smear = 0\<rparr>]
        (Finite (1830124836000000000 - 43199))
       = Some (Finite (315360000000000000 - 43199))
   \<and> at_rounding_tie
        [\<lparr>utc = Finite 325728000000000000, tai = Finite 1840492836000000000, smear = 0\<rparr>,
         \<lparr>utc = Finite 315360000000000000, tai = Finite 1830124836000000000, smear = - 1\<rparr>,
         \<lparr>utc = Finite 315014400000000000, tai = Finite 1829779240000000000, smear = 0\<rparr>,
         \<lparr>utc = Finite 252288000000000000, tai = Finite 1767052840000000000, smear = 0\<rparr>]
        (315360000000000000 - 43200)"
  by code_simp

lemma unsmear_not_injective_at_tie:
  "Unsmear
     [\<lparr>utc = Finite 325728000000000000, tai = Finite 1840492836000000000, smear = 0\<rparr>,
      \<lparr>utc = Finite 315360000000000000, tai = Finite 1830124836000000000, smear = - 1\<rparr>,
      \<lparr>utc = Finite 315014400000000000, tai = Finite 1829779240000000000, smear = 0\<rparr>,
      \<lparr>utc = Finite 252288000000000000, tai = Finite 1767052840000000000, smear = 0\<rparr>]
     (Finite (315360000000000000 - 43199))
   = Some (Finite (1830124836000000000 - 43199))"
  by code_simp

section \<open>Saturating addition\<close>

text \<open>
  C8.  Addition saturates at infinity instead of overflowing or producing a NaN:
  \<^verbatim>\<open>Seconds(INT64_MAX) + Seconds(1) == InfiniteDuration()\<close>, and
  \<^verbatim>\<open>InfiniteDuration() + (-InfiniteDuration()) == InfiniteDuration()\<close>.
\<close>

theorem duration_addition_saturates:
  "dplus (Seconds kint64max) (Seconds 1) = InfiniteDuration
   \<and> dplus InfiniteDuration (dneg InfiniteDuration) = InfiniteDuration"
  by (simp add: Seconds_def InfiniteDuration_def representable_def kint64max_def
      kint64min_def kTicksPerSecond_def)

end
